theory Spec2Isabelle
  imports Complex_Main "HOL-Library.Sublist" "HOL-Library.Char_ord" "HOL-Library.List_Lexorder"
begin

text \<open>
  The indexing and query engine of the blob explorer page (\<open>site/app.js\<close>): file types,
  the folder tree, search matching, filtering, sorting, display with pagination, page
  navigation and the folders of a pattern favourite. Each function of the script is a
  definition of the same name; what belongs to the JavaScript engine (regular expressions,
  \<open>localeCompare\<close>, \<open>Array.prototype.sort\<close>, \<open>slice\<close>) is modelled next to its first use.
\<close>

section \<open>JavaScript strings and arrays\<close>

text \<open>
  A JavaScript string is modelled as a \<^typ>\<open>string\<close>; every \<^typ>\<open>char\<close> stands for one
  UTF-16 code unit and the case mappings are those of the ASCII letters, so the model
  covers ASCII text. Numbers that the code only adds, compares and divides by the page size
  (\<open>Length\<close>, page numbers, indices) are \<^typ>\<open>int\<close> or \<^typ>\<open>nat\<close>.
\<close>

definition ascii_upper :: string where
  "ascii_upper = ''ABCDEFGHIJKLMNOPQRSTUVWXYZ''"

definition ascii_lower :: string where
  "ascii_lower = ''abcdefghijklmnopqrstuvwxyz''"

definition lower_char :: "char \<Rightarrow> char" where
  "lower_char c = (case map_of (zip ascii_upper ascii_lower) c of Some l \<Rightarrow> l | None \<Rightarrow> c)"

definition upper_char :: "char \<Rightarrow> char" where
  "upper_char c = (case map_of (zip ascii_lower ascii_upper) c of Some u \<Rightarrow> u | None \<Rightarrow> c)"

definition toLowerCase :: "string \<Rightarrow> string" where
  "toLowerCase s = map lower_char s"

definition toUpperCase :: "string \<Rightarrow> string" where
  "toUpperCase s = map upper_char s"

text \<open>\<open>s.split('/')\<close>: never empty, \<open>''''.split('/')\<close> is \<open>['''']\<close>.\<close>

fun split_slash :: "string \<Rightarrow> string list" where
  "split_slash [] = [[]]"
| "split_slash (c # cs) =
     (if c = CHR ''/'' then [] # split_slash cs
      else (case split_slash cs of [] \<Rightarrow> [[c]] | w # ws \<Rightarrow> (c # w) # ws))"

text \<open>\<open>parts.join('/')\<close>: the empty array joins to the empty string.\<close>

fun join_slash :: "string list \<Rightarrow> string" where
  "join_slash [] = []"
| "join_slash [w] = w"
| "join_slash (w # v # ws) = w @ CHR ''/'' # join_slash (v # ws)"

text \<open>\<open>text.includes(term)\<close> and \<open>text.startsWith(term)\<close>.\<close>

definition startsWith :: "string \<Rightarrow> string \<Rightarrow> bool" where
  "startsWith s t = prefix t s"

fun str_includes :: "string \<Rightarrow> string \<Rightarrow> bool" where
  "str_includes [] t = (t = [])"
| "str_includes (c # cs) t = (prefix t (c # cs) \<or> str_includes cs t)"

text \<open>
  \<open>xs.slice(start, end)\<close> with both arguments given: a negative index counts from the
  end, both are clamped to the array, and an empty range gives the empty array.
\<close>

definition js_slice :: "'a list \<Rightarrow> int \<Rightarrow> int \<Rightarrow> 'a list" where
  "js_slice xs start end' =
     (let n = int (length xs);
          k = (if start < 0 then max (n + start) 0 else min start n);
          f = (if end' < 0 then max (n + end') 0 else min end' n)
      in take (nat (f - k)) (drop (nat k) xs))"

text \<open>
  \<open>xs.sort(cmp)\<close> is stable (ECMAScript 2019) and, for a consistent comparator, sorted;
  these two facts determine the result, which is the one of the stable insertion sort
  below. \<open>cmp a b \<le> 0\<close> keeps \<open>a\<close> before \<open>b\<close>. A comparator that returns \<open>NaN\<close> is read
  as returning \<open>+0\<close> (\<open>comparator_value\<close>); it need not be consistent, the order is
  then left to the engine, and the model keeps that of the insertion sort.
\<close>

definition comparator_value :: "int option \<Rightarrow> int" where
  "comparator_value v = (case v of None \<Rightarrow> 0 | Some n \<Rightarrow> n)"

fun insert_cmp :: "('a \<Rightarrow> 'a \<Rightarrow> int) \<Rightarrow> 'a \<Rightarrow> 'a list \<Rightarrow> 'a list" where
  "insert_cmp cmp x [] = [x]"
| "insert_cmp cmp x (y # ys) = (if cmp x y \<le> 0 then x # y # ys else y # insert_cmp cmp x ys)"

definition js_sort :: "('a \<Rightarrow> 'a \<Rightarrow> int) \<Rightarrow> 'a list \<Rightarrow> 'a list" where
  "js_sort cmp xs = foldr (insert_cmp cmp) xs []"

section \<open>Records and file types\<close>

text \<open>
  One entry of \<open>allDownloads\<close>. \<open>LastModified\<close> is kept as what \<open>new Date(LastModified)\<close>
  denotes: an instant in milliseconds, or \<open>None\<close> for an invalid date, which is what a
  string that does not parse gives (\<open>fetchBlobsFromUrl\<close> stores the empty string when the
  listing has no \<open>Last-Modified\<close>).
\<close>

record download =
  Name :: string
  Url :: string
  Length :: int
  LastModified :: "int option"
  ContentType :: "string option"

datatype icon =
  IconPdf | IconZip | IconWeb | IconTxt | IconInstaller | IconIso | IconXml | IconJson
  | IconDll | IconCert | IconImage | IconWord | IconDatabase | IconFile

text \<open>
  What the callers read from the value of \<open>getFileTypeInfo\<close>: its properties \<open>icon\<close>,
  \<open>name\<close> and \<open>color\<close>, where \<open>None\<close> is \<open>undefined\<close>.
\<close>

record typeinfo =
  icon :: "icon option"
  name :: "string option"
  color :: "string option"

definition entry :: "icon \<Rightarrow> string \<Rightarrow> string \<Rightarrow> typeinfo" where
  "entry i n c = \<lparr>icon = Some i, name = Some n, color = Some c\<rparr>"

definition typeMap_own :: "(string \<times> typeinfo) list" where
  "typeMap_own =
    [(''pdf'', entry IconPdf ''PDF'' ''#d32f2f''),
     (''zip'', entry IconZip ''ZIP'' ''#ff9800''),
     (''htm'', entry IconWeb ''HTML'' ''#1976d2''),
     (''html'', entry IconWeb ''HTML'' ''#1976d2''),
     (''txt'', entry IconTxt ''Text'' ''#666''),
     (''exe'', entry IconInstaller ''Installer'' ''#00897b''),
     (''msi'', entry IconInstaller ''Installer'' ''#00897b''),
     (''iso'', entry IconIso ''ISO'' ''#5e35b1''),
     (''xml'', entry IconXml ''XML'' ''#f57c00''),
     (''json'', entry IconJson ''JSON'' ''#388e3c''),
     (''dll'', entry IconDll ''DLL'' ''#455a64''),
     (''cer'', entry IconCert ''Certificate'' ''#c62828''),
     (''jpg'', entry IconImage ''Image'' ''#e91e63''),
     (''jpeg'', entry IconImage ''Image'' ''#e91e63''),
     (''png'', entry IconImage ''Image'' ''#e91e63''),
     (''gif'', entry IconImage ''Image'' ''#e91e63''),
     (''doc'', entry IconWord ''Word'' ''#1565c0''),
     (''docx'', entry IconWord ''Word'' ''#1565c0''),
     (''db'', entry IconDatabase ''Database'' ''#6d4c41'')]"

text \<open>
  \<open>typeMap[ext]\<close>. \<open>typeMap\<close> is an object literal, so a key that is not its own is looked
  up in \<open>Object.prototype\<close>. \<open>ext\<close> is lower case, and the lower-case property names
  there are \<open>constructor\<close> (the function \<open>Object\<close>, whose \<open>name\<close> is \<open>''Object''\<close>) and
  \<open>__proto__\<close> (the prototype object itself, with no \<open>name\<close>). Both are truthy.
\<close>

definition typeMap_get :: "string \<Rightarrow> typeinfo option" where
  "typeMap_get ext =
     (case map_of typeMap_own ext of
        Some v \<Rightarrow> Some v
      | None \<Rightarrow>
          if ext = ''constructor'' then Some \<lparr>icon = None, name = Some ''Object'', color = None\<rparr>
          else if ext = ''__proto__'' then Some \<lparr>icon = None, name = None, color = None\<rparr>
          else None)"

text \<open>
  \<open>url.match(/\.([^./?#]+)(?:[?#]|$)/)\<close>: the leftmost dot that is followed by a
  non-empty run of characters other than \<open>. / ? #\<close> which ends the string or is followed by
  \<open>?\<close> or \<open>#\<close>. The run is maximal: a shorter one is followed by a character of the run.
\<close>

definition ext_stop :: "char \<Rightarrow> bool" where
  "ext_stop c = (c = CHR ''.'' \<or> c = CHR ''/'' \<or> c = CHR ''?'' \<or> c = CHR ''#'')"

fun ext_match :: "string \<Rightarrow> string option" where
  "ext_match [] = None"
| "ext_match (c # cs) =
     (if c = CHR ''.'' then
        (let run = takeWhile (\<lambda>x. \<not> ext_stop x) cs;
             rest = dropWhile (\<lambda>x. \<not> ext_stop x) cs
         in if run \<noteq> [] \<and> (case rest of [] \<Rightarrow> True | r # _ \<Rightarrow> r = CHR ''?'' \<or> r = CHR ''#'')
            then Some run else ext_match cs)
      else ext_match cs)"

definition getFileExtension :: "string \<Rightarrow> string" where
  "getFileExtension url = (case ext_match url of Some m \<Rightarrow> toLowerCase m | None \<Rightarrow> ''unknown'')"

type_synonym cache = "string \<rightharpoonup> typeinfo"

definition generic_info :: "string \<Rightarrow> typeinfo" where
  "generic_info ext = \<lparr>icon = Some IconFile, name = Some (toUpperCase ext), color = Some ''#757575''\<rparr>"

text \<open>\<open>getFileTypeInfo\<close> reads and fills \<open>fileTypeCache\<close>; the new cache is returned.\<close>

definition getFileTypeInfo :: "cache \<Rightarrow> download \<Rightarrow> typeinfo \<times> cache" where
  "getFileTypeInfo c d =
     (case c (Url d) of
        Some r \<Rightarrow> (r, c)
      | None \<Rightarrow>
          (let ext = getFileExtension (Url d);
               result = (case typeMap_get ext of Some v \<Rightarrow> v | None \<Rightarrow> generic_info ext)
           in (result, c(Url d \<mapsto> result))))"

text \<open>
  What \<open>getFileTypeInfo\<close> computes for a URL that is not in the cache, and the caches whose
  entries are such values.
\<close>

definition classify :: "string \<Rightarrow> typeinfo" where
  "classify url =
     (let ext = getFileExtension url
      in case typeMap_get ext of Some v \<Rightarrow> v | None \<Rightarrow> generic_info ext)"

definition cache_ok :: "cache \<Rightarrow> bool" where
  "cache_ok c = (\<forall>u r. c u = Some r \<longrightarrow> r = classify u)"

text \<open>\<open>fileTypes.has(typeInfo.name)\<close>: the set holds strings only.\<close>

definition set_has :: "string set \<Rightarrow> string option \<Rightarrow> bool" where
  "set_has A n = (case n of None \<Rightarrow> False | Some l \<Rightarrow> l \<in> A)"

section \<open>Pagination\<close>

definition itemsPerPage :: int where
  "itemsPerPage = 100"

text \<open>\<open>Math.ceil(totalItems / itemsPerPage)\<close>\<close>

definition totalPages :: "nat \<Rightarrow> int" where
  "totalPages totalItems = \<lceil>real totalItems / real_of_int itemsPerPage\<rceil>"

text \<open>The slice of \<open>displayDownloads\<close> and \<open>renderSearchResults\<close> for \<open>currentPage\<close>.\<close>

definition pageItems :: "'a list \<Rightarrow> int \<Rightarrow> 'a list" where
  "pageItems items currentPage =
     (let totalItems = int (length items);
          startIdx = (currentPage - 1) * itemsPerPage;
          endIdx = min (startIdx + itemsPerPage) totalItems
      in js_slice items startIdx endIdx)"

section \<open>Regular expressions of the host\<close>

text \<open>
  \<open>new RegExp(p, 'i')\<close> belongs to the JavaScript engine. A compiled expression is
  modelled by its \<open>exec\<close>: the index and the length of the leftmost match, \<open>None\<close> when
  there is none; \<open>regex.test(s)\<close> is \<open>regex s \<noteq> None\<close>. The model fixes the engine on two
  kinds of pattern and asks the host for every other one:
  \<^item> a sequence of literal characters, escaped syntax characters, \<open>.\<close>, \<open>.*\<close> and the group
    \<open>(?:/|$)\<close>, matched with backtracking, \<open>.*\<close> greedy, letters compared without case,
    \<open>.\<close> not matching a line terminator;
  \<^item> a pattern with a \<open>[\<close>, no \<open>]\<close> and no backslash: its character class is not
    terminated, and the constructor throws a \<open>SyntaxError\<close>.
\<close>

datatype error = SyntaxError | RangeError

type_synonym regexp = "string \<Rightarrow> (nat \<times> nat) option"

record host =
  host_RegExp :: "string \<Rightarrow> regexp option"
  host_localeCompare :: "string \<Rightarrow> string \<Rightarrow> int"

datatype atom = Lit char | AnyChar | AnyStar | SlashOrEnd

definition backslash :: char where
  "backslash = CHR 0x5C"

definition syntax_char :: "char \<Rightarrow> bool" where
  "syntax_char c = (c \<in> set ''^$.*+?()[]{}|'' \<or> c = backslash)"

fun parse_pattern :: "string \<Rightarrow> atom list option" where
  "parse_pattern [] = Some []"
| "parse_pattern (c # cs) =
     (if c = backslash then
        (case cs of
           [] \<Rightarrow> None
         | e # es \<Rightarrow> if syntax_char e then map_option ((#) (Lit e)) (parse_pattern es) else None)
      else if c = CHR ''.'' then
        (case cs of
           [] \<Rightarrow> Some [AnyChar]
         | s # ss \<Rightarrow>
             if s = CHR ''*'' then map_option ((#) AnyStar) (parse_pattern ss)
             else map_option ((#) AnyChar) (parse_pattern (s # ss)))
      else if prefix ''(?:/|$)'' (c # cs) then map_option ((#) SlashOrEnd) (parse_pattern (drop 6 cs))
      else if syntax_char c then None
      else map_option ((#) (Lit c)) (parse_pattern cs))"

definition ci_eq :: "char \<Rightarrow> char \<Rightarrow> bool" where
  "ci_eq a b = (upper_char a = upper_char b)"

definition line_terminator :: "char \<Rightarrow> bool" where
  "line_terminator c = (c = CHR 0x0A \<or> c = CHR 0x0D)"

text \<open>The length of the match that starts here, in the order the backtracking finds it.\<close>

fun match_here :: "atom list \<Rightarrow> string \<Rightarrow> nat option" where
  "match_here [] s = Some 0"
| "match_here (Lit c # as) [] = None"
| "match_here (Lit c # as) (x # xs) = (if ci_eq c x then map_option Suc (match_here as xs) else None)"
| "match_here (AnyChar # as) [] = None"
| "match_here (AnyChar # as) (x # xs) =
     (if line_terminator x then None else map_option Suc (match_here as xs))"
| "match_here (AnyStar # as) [] = match_here as []"
| "match_here (AnyStar # as) (x # xs) =
     (if line_terminator x then match_here as (x # xs)
      else (case match_here (AnyStar # as) xs of
              Some n \<Rightarrow> Some (Suc n)
            | None \<Rightarrow> match_here as (x # xs)))"
| "match_here (SlashOrEnd # as) [] = match_here as []"
| "match_here (SlashOrEnd # as) (x # xs) =
     (if x = CHR ''/'' then map_option Suc (match_here as xs) else None)"

fun exec_from :: "atom list \<Rightarrow> string \<Rightarrow> nat \<Rightarrow> (nat \<times> nat) option" where
  "exec_from as s i =
     (case match_here as s of
        Some n \<Rightarrow> Some (i, n)
      | None \<Rightarrow> (case s of [] \<Rightarrow> None | x # xs \<Rightarrow> exec_from as xs (Suc i)))"

definition exec_atoms :: "atom list \<Rightarrow> regexp" where
  "exec_atoms as s = exec_from as s 0"

definition unterminated_class :: "string \<Rightarrow> bool" where
  "unterminated_class p = (CHR ''['' \<in> set p \<and> CHR '']'' \<notin> set p \<and> backslash \<notin> set p)"

text \<open>\<open>new RegExp(p, 'i')\<close>; \<open>None\<close> when it throws.\<close>

definition RegExp_i :: "host \<Rightarrow> string \<Rightarrow> regexp option" where
  "RegExp_i h p =
     (case parse_pattern p of
        Some as \<Rightarrow> Some (exec_atoms as)
      | None \<Rightarrow> if unterminated_class p then None else host_RegExp h p)"

section \<open>Search matching\<close>

text \<open>\<open>pattern.replace(/[.+^${}()|[\]\\]/g, '\\$&')\<close>\<close>

definition escape_special :: "string \<Rightarrow> string" where
  "escape_special pattern =
     concat (map (\<lambda>c. if c \<in> set ''.+^${}()|[]'' \<or> c = backslash then [backslash, c] else [c]) pattern)"

text \<open>\<open>escaped.replace(/\*/g, '.*')\<close> and \<open>.replace(/\?/g, '.')\<close>\<close>

definition replace_star :: "string \<Rightarrow> string" where
  "replace_star s = concat (map (\<lambda>c. if c = CHR ''*'' then ''.*'' else [c]) s)"

definition replace_question :: "string \<Rightarrow> string" where
  "replace_question s = concat (map (\<lambda>c. if c = CHR ''?'' then ''.'' else [c]) s)"

definition wildcardToRegex :: "host \<Rightarrow> string \<Rightarrow> regexp option" where
  "wildcardToRegex h pattern =
     (let escaped = escape_special pattern;
          regexPattern = replace_question (replace_star escaped)
      in RegExp_i h regexPattern)"

text \<open>\<open>\s\<close>: tab, line feed, vertical tab, form feed, carriage return, space, no-break space.\<close>

definition whitespace :: "char \<Rightarrow> bool" where
  "whitespace c = (c \<in> {CHR 0x09, CHR 0x0A, CHR 0x0B, CHR 0x0C, CHR 0x0D, CHR 0x20, CHR 0xA0})"

definition strip_whitespace :: "string \<Rightarrow> string" where
  "strip_whitespace s = filter (\<lambda>c. \<not> whitespace c) s"

text \<open>The last branch of \<open>matchesSearch\<close>: the regular, space-insensitive search.\<close>

definition regular_search :: "string \<Rightarrow> string \<Rightarrow> bool" where
  "regular_search text searchTerm =
     (let textNoSpaces = strip_whitespace text;
          searchTermNoSpaces = strip_whitespace searchTerm
      in str_includes text searchTerm \<or> str_includes textNoSpaces searchTermNoSpaces)"

definition matchesSearch :: "host \<Rightarrow> string \<Rightarrow> string \<Rightarrow> error + bool" where
  "matchesSearch h text searchTerm =
     (let isRegex = (startsWith searchTerm ''/'' \<or> startsWith searchTerm ''^'') in
      if isRegex then
        (let regexPattern = (if startsWith searchTerm ''/'' then drop 1 searchTerm else searchTerm) in
         case RegExp_i h regexPattern of
           Some regex \<Rightarrow> Inr (regex text \<noteq> None)
         | None \<Rightarrow> Inr (str_includes text searchTerm))
      else
        (let hasWildcard = (CHR ''*'' \<in> set searchTerm \<or> CHR ''?'' \<in> set searchTerm) in
         if hasWildcard then
           (case wildcardToRegex h searchTerm of
              Some regex \<Rightarrow> Inr (regex text \<noteq> None)
            | None \<Rightarrow> Inl SyntaxError)
         else Inr (regular_search text searchTerm)))"

section \<open>Filtering\<close>

record filter_options =
  searchTerm :: string
  fileTypes :: "string set"
  excludeZeroByte :: bool

text \<open>The callback of \<open>downloads.filter\<close> in \<open>filterDownloads\<close>.\<close>

definition filter_keep :: "host \<Rightarrow> filter_options \<Rightarrow> download \<Rightarrow> cache \<Rightarrow> error + (bool \<times> cache)" where
  "filter_keep h opts d c =
     (if excludeZeroByte opts \<and> Length d \<le> 0 then Inr (False, c)
      else
        (let (typeOk, c1) =
               (if fileTypes opts \<noteq> {} then
                  (let (typeInfo, c') = getFileTypeInfo c d in (set_has (fileTypes opts) (name typeInfo), c'))
                else (True, c))
         in if \<not> typeOk then Inr (False, c1)
            else if searchTerm opts \<noteq> [] then
              (case matchesSearch h (toLowerCase (Name d)) (toLowerCase (searchTerm opts)) of
                 Inl e \<Rightarrow> Inl e
               | Inr b \<Rightarrow> Inr (b, c1))
            else Inr (True, c1)))"

fun filterDownloads ::
  "host \<Rightarrow> download list \<Rightarrow> filter_options \<Rightarrow> cache \<Rightarrow> error + (download list \<times> cache)" where
  "filterDownloads h [] opts c = Inr ([], c)"
| "filterDownloads h (d # ds) opts c =
     (case filter_keep h opts d c of
        Inl e \<Rightarrow> Inl e
      | Inr (b, c1) \<Rightarrow>
          (case filterDownloads h ds opts c1 of
             Inl e \<Rightarrow> Inl e
           | Inr (kept, c2) \<Rightarrow> Inr (if b then d # kept else kept, c2)))"

section \<open>The folder tree\<close>

text \<open>
  A node of \<open>folderTree\<close>. \<open>folders\<close> is a \<open>Set\<close>: it keeps the order of insertion and
  holds no element twice.
\<close>

record folder_node =
  folders :: "string list"
  files :: "download list"

type_synonym tree = "string \<rightharpoonup> folder_node"

definition empty_node :: folder_node where
  "empty_node = \<lparr>folders = [], files = []\<rparr>"

text \<open>\<open>if (!folderTree.has(p)) folderTree.set(p, { folders: new Set(), files: [] })\<close>\<close>

definition ensure_node :: "tree \<Rightarrow> string \<Rightarrow> tree" where
  "ensure_node T p = (if T p = None then T(p \<mapsto> empty_node) else T)"

text \<open>
  \<open>folderTree.get(p).files.push(d)\<close> and \<open>folderTree.get(p).folders.add(f)\<close>; both follow
  \<open>ensure_node\<close> for the same key, so the node is there.
\<close>

definition push_file :: "tree \<Rightarrow> string \<Rightarrow> download \<Rightarrow> tree" where
  "push_file T p d = (case T p of None \<Rightarrow> T | Some n \<Rightarrow> T(p \<mapsto> n\<lparr>files := files n @ [d]\<rparr>))"

definition set_add :: "string \<Rightarrow> string list \<Rightarrow> string list" where
  "set_add f fs = (if f \<in> set fs then fs else fs @ [f])"

definition add_folder :: "tree \<Rightarrow> string \<Rightarrow> string \<Rightarrow> tree" where
  "add_folder T p f = (case T p of None \<Rightarrow> T | Some n \<Rightarrow> T(p \<mapsto> n\<lparr>folders := set_add f (folders n)\<rparr>))"

text \<open>The body of the loop \<open>for (let i = 0; i < parts.length - 1; i++)\<close>.\<close>

definition hierarchy_step :: "string list \<Rightarrow> nat \<Rightarrow> tree \<Rightarrow> tree" where
  "hierarchy_step parts i T =
     (let currentPath = join_slash (take i parts);
          childFolder = parts ! i;
          childPath = join_slash (take (i + 1) parts);
          T1 = add_folder (ensure_node T currentPath) currentPath childFolder
      in ensure_node T1 childPath)"

text \<open>The body of \<open>allDownloads.forEach\<close> in \<open>buildFolderTree\<close>.\<close>

definition add_download :: "download \<Rightarrow> tree \<times> cache \<Rightarrow> tree \<times> cache" where
  "add_download d = (\<lambda>(T, c).
     (let parts = split_slash (Name d);
          c1 = snd (getFileTypeInfo c d);
          parentPath = join_slash (take (length parts - 1) parts);
          T1 = push_file (ensure_node T parentPath) parentPath d
      in (fold (hierarchy_step parts) [0..<length parts - 1] T1, c1)))"

definition buildFolderTree :: "download list \<Rightarrow> tree \<times> cache" where
  "buildFolderTree allDownloads' = fold add_download allDownloads' ([[] \<mapsto> empty_node], Map.empty)"

section \<open>Folders with matching files\<close>

text \<open>
  \<open>node.files.some(...)\<close> in \<open>checkNode\<close>; it stops at the first file that matches. The
  argument \<open>A\<close> is the global \<open>activeFileTypes\<close>.
\<close>

fun some_matching :: "string set \<Rightarrow> download list \<Rightarrow> cache \<Rightarrow> bool \<times> cache" where
  "some_matching A [] c = (False, c)"
| "some_matching A (d # ds) c =
     (if Length d \<le> 0 then some_matching A ds c
      else if A \<noteq> {} then
        (let (typeInfo, c1) = getFileTypeInfo c d
         in if set_has A (name typeInfo) then (True, c1) else some_matching A ds c1)
      else (True, c))"

text \<open>
  \<open>for (const subfolder of node.folders) if (checkNode(...)) return true\<close>; \<open>None\<close> when a
  call does not return.
\<close>

fun any_subfolder ::
  "(string \<Rightarrow> cache \<Rightarrow> (bool \<times> cache) option) \<Rightarrow> string list \<Rightarrow> cache \<Rightarrow> (bool \<times> cache) option" where
  "any_subfolder f [] c = Some (False, c)"
| "any_subfolder f (x # xs) c =
     (case f x c of
        None \<Rightarrow> None
      | Some (b, c1) \<Rightarrow> if b then Some (True, c1) else any_subfolder f xs c1)"

lemma any_subfolder_mono [partial_function_mono]:
  assumes "\<And>x c. mono_option (\<lambda>f. B f x c)"
  shows "mono_option (\<lambda>f. any_subfolder (B f) xs c)"
proof (induction xs arbitrary: c)
  case Nil
  show ?case by (simp add: option.const_mono)
next
  case (Cons x xs)
  have eq: "(\<lambda>f. any_subfolder (B f) (x # xs) c) =
    (\<lambda>f. Option.bind (B f x c) (\<lambda>(b, c1). if b then Some (True, c1) else any_subfolder (B f) xs c1))"
    by (auto simp: fun_eq_iff split: option.splits Option.bind_splits)
  show ?case unfolding eq
    by (intro partial_function_mono assms) (auto intro!: partial_function_mono Cons.IH split: prod.splits)
qed

text \<open>
  \<open>checkNode\<close> is recursive over the tree; a call that recurses for ever (in JavaScript:
  until the stack is exhausted) has the value \<open>None\<close>.
\<close>

partial_function (option) checkNode :: "tree \<Rightarrow> string set \<Rightarrow> string \<Rightarrow> cache \<Rightarrow> (bool \<times> cache) option" where
  "checkNode T A path c =
     (case T path of
        None \<Rightarrow> Some (False, c)
      | Some node \<Rightarrow>
          (case some_matching A (files node) c of
             (hasMatchingFile, c1) \<Rightarrow>
               if hasMatchingFile then Some (True, c1)
               else any_subfolder
                      (\<lambda>subfolder c2.
                         checkNode T A (if path \<noteq> [] then path @ ''/'' @ subfolder else subfolder) c2)
                      (folders node) c1))"

declare checkNode.simps [code]

definition folderHasMatchingFiles ::
  "tree \<Rightarrow> string set \<Rightarrow> string \<Rightarrow> string \<Rightarrow> cache \<Rightarrow> (bool \<times> cache) option" where
  "folderHasMatchingFiles T A parentPath folderName c =
     (let folderPath = (if parentPath \<noteq> [] then parentPath @ ''/'' @ folderName else folderName)
      in checkNode T A folderPath c)"

section \<open>Sorting and display\<close>

text \<open>
  \<open>sortFiles\<close>. \<open>localeCompare\<close> depends on the locale of the host and is taken from it. A
  value of \<open>sortBy\<close> that the \<open>switch\<close> does not name leaves the copy as it is.
\<close>

definition file_name :: "download \<Rightarrow> string" where
  "file_name d = toLowerCase (last (split_slash (Name d)))"

text \<open>
  \<open>new Date(x.LastModified) - new Date(y.LastModified)\<close>: the difference of two instants,
  \<open>NaN\<close> (here \<open>None\<close>) when one of the dates is invalid.
\<close>

definition date_minus :: "download \<Rightarrow> download \<Rightarrow> int option" where
  "date_minus x y =
     (case LastModified x of
        None \<Rightarrow> None
      | Some s \<Rightarrow> (case LastModified y of None \<Rightarrow> None | Some t \<Rightarrow> Some (s - t)))"

definition sortFiles :: "host \<Rightarrow> string \<Rightarrow> download list \<Rightarrow> download list" where
  "sortFiles h sortBy' files' =
     (if sortBy' = ''date-desc'' then js_sort (\<lambda>a b. comparator_value (date_minus b a)) files'
      else if sortBy' = ''date-asc'' then js_sort (\<lambda>a b. comparator_value (date_minus a b)) files'
      else if sortBy' = ''size-desc'' then js_sort (\<lambda>a b. Length b - Length a) files'
      else if sortBy' = ''size-asc'' then js_sort (\<lambda>a b. Length a - Length b) files'
      else if sortBy' = ''name-asc'' then
        js_sort (\<lambda>a b. host_localeCompare h (file_name a) (file_name b)) files'
      else files')"

text \<open>The globals of the page and the value of the search box.\<close>

record app_state =
  allDownloads :: "download list"
  folderTree :: tree
  fileTypeCache :: cache
  currentPath :: "string list"
  activeFileTypes :: "string set"
  currentPage :: int
  sortBy :: string
  searchInput :: string

datatype item = FolderItem string | FileItem download

text \<open>What \<open>displayDownloads\<close> computes before it writes the page.\<close>

record rendered =
  allItems :: "item list"
  totalItems :: nat
  pages :: int
  shown :: "item list"

datatype view = FolderNotFound | SearchResults rendered | Listing rendered

definition render_items :: "item list \<Rightarrow> int \<Rightarrow> rendered" where
  "render_items items page =
     \<lparr>allItems = items, totalItems = length items, pages = totalPages (length items),
      shown = pageItems items page\<rparr>"

definition renderSearchResults :: "host \<Rightarrow> app_state \<Rightarrow> download list \<Rightarrow> rendered" where
  "renderSearchResults h st filteredFiles =
     (let sortedFiles = sortFiles h (sortBy st) filteredFiles
      in render_items (map FileItem sortedFiles) (currentPage st))"

text \<open>\<open>folders.filter(folderName => folderHasMatchingFiles(pathKey, folderName))\<close>\<close>

fun filter_folders ::
  "(string \<Rightarrow> cache \<Rightarrow> (bool \<times> cache) option) \<Rightarrow> string list \<Rightarrow> cache \<Rightarrow> (string list \<times> cache) option" where
  "filter_folders f [] c = Some ([], c)"
| "filter_folders f (x # xs) c =
     (case f x c of
        None \<Rightarrow> None
      | Some (b, c1) \<Rightarrow>
          (case filter_folders f xs c1 of
             None \<Rightarrow> None
           | Some (kept, c2) \<Rightarrow> Some (if b then x # kept else kept, c2)))"

text \<open>
  \<open>displayDownloads\<close>: the view and the cache it leaves, or the exception that ends the
  call. A \<open>checkNode\<close> that does not return exhausts the stack: a \<open>RangeError\<close>.
\<close>

definition displayDownloads :: "host \<Rightarrow> app_state \<Rightarrow> error + (view \<times> cache)" where
  "displayDownloads h st =
     (let searchTerm' = toLowerCase (searchInput st) in
      if searchTerm' \<noteq> [] then
        (case filterDownloads h (allDownloads st)
                \<lparr>searchTerm = searchTerm', fileTypes = activeFileTypes st, excludeZeroByte = True\<rparr>
                (fileTypeCache st) of
           Inl e \<Rightarrow> Inl e
         | Inr (filteredFiles, c1) \<Rightarrow> Inr (SearchResults (renderSearchResults h st filteredFiles), c1))
      else
        (let pathKey = join_slash (currentPath st) in
         case folderTree st pathKey of
           None \<Rightarrow> Inr (FolderNotFound, fileTypeCache st)
         | Some node \<Rightarrow>
             (case filterDownloads h (files node)
                     \<lparr>searchTerm = [], fileTypes = activeFileTypes st, excludeZeroByte = True\<rparr>
                     (fileTypeCache st) of
                Inl e \<Rightarrow> Inl e
              | Inr (files', c1) \<Rightarrow>
                  (case filter_folders
                          (folderHasMatchingFiles (folderTree st) (activeFileTypes st) pathKey)
                          (folders node) c1 of
                     None \<Rightarrow> Inl RangeError
                   | Some (filteredFolders, c2) \<Rightarrow>
                       (let sortedFiles = sortFiles h (sortBy st) files';
                            items = map FolderItem (sort filteredFolders) @ map FileItem sortedFiles
                        in Inr (Listing (render_items items (currentPage st)), c2))))))"

section \<open>Page navigation\<close>

definition getCurrentViewItemCount :: "host \<Rightarrow> app_state \<Rightarrow> error + (nat \<times> cache)" where
  "getCurrentViewItemCount h st =
     (let searchTerm' = searchInput st in
      if searchTerm' \<noteq> [] then
        (case filterDownloads h (allDownloads st)
                \<lparr>searchTerm = searchTerm', fileTypes = activeFileTypes st, excludeZeroByte = True\<rparr>
                (fileTypeCache st) of
           Inl e \<Rightarrow> Inl e
         | Inr (kept, c1) \<Rightarrow> Inr (length kept, c1))
      else
        (let pathKey = join_slash (currentPath st) in
         case folderTree st pathKey of
           None \<Rightarrow> Inr (0, fileTypeCache st)
         | Some node \<Rightarrow>
             (case filterDownloads h (files node)
                     \<lparr>searchTerm = [], fileTypes = activeFileTypes st, excludeZeroByte = True\<rparr>
                     (fileTypeCache st) of
                Inl e \<Rightarrow> Inl e
              | Inr (files', c1) \<Rightarrow>
                  (case filter_folders
                          (folderHasMatchingFiles (folderTree st) (activeFileTypes st) pathKey)
                          (folders node) c1 of
                     None \<Rightarrow> Inl RangeError
                   | Some (filteredFolders, c2) \<Rightarrow> Inr (length filteredFolders + length files', c2)))))"

text \<open>
  The handlers give the state they leave and the exception, if any, that ends them. When a
  call throws, the model leaves the cache as it was before the call: what the call had
  added to it are values that \<open>getFileTypeInfo\<close> computes again.
\<close>

definition redraw :: "host \<Rightarrow> app_state \<Rightarrow> app_state \<times> error option" where
  "redraw h st =
     (case displayDownloads h st of
        Inl e \<Rightarrow> (st, Some e)
      | Inr (v, c) \<Rightarrow> (st\<lparr>fileTypeCache := c\<rparr>, None))"

definition goToPage :: "host \<Rightarrow> int \<Rightarrow> app_state \<Rightarrow> app_state \<times> error option" where
  "goToPage h page st = redraw h (st\<lparr>currentPage := page\<rparr>)"

definition nextPage :: "host \<Rightarrow> app_state \<Rightarrow> app_state \<times> error option" where
  "nextPage h st =
     (case getCurrentViewItemCount h st of
        Inl e \<Rightarrow> (st, Some e)
      | Inr (totalItems', c) \<Rightarrow>
          (let st1 = st\<lparr>fileTypeCache := c\<rparr>;
               totalPages' = totalPages totalItems'
           in if currentPage st1 < totalPages'
              then redraw h (st1\<lparr>currentPage := currentPage st1 + 1\<rparr>)
              else (st1, None)))"

definition prevPage :: "host \<Rightarrow> app_state \<Rightarrow> app_state \<times> error option" where
  "prevPage h st =
     (if currentPage st > 1 then redraw h (st\<lparr>currentPage := currentPage st - 1\<rparr>) else (st, None))"

definition firstPage :: "host \<Rightarrow> app_state \<Rightarrow> app_state \<times> error option" where
  "firstPage h st = redraw h (st\<lparr>currentPage := 1\<rparr>)"

definition lastPage :: "host \<Rightarrow> app_state \<Rightarrow> app_state \<times> error option" where
  "lastPage h st =
     (case getCurrentViewItemCount h st of
        Inl e \<Rightarrow> (st, Some e)
      | Inr (totalItems', c) \<Rightarrow>
          (let st1 = st\<lparr>fileTypeCache := c\<rparr>;
               totalPages' = totalPages totalItems'
           in redraw h (st1\<lparr>currentPage := totalPages'\<rparr>)))"

text \<open>The items of a view, and a host for the examples: it rejects every pattern it is asked
  to compile and compares names by their code units.\<close>

fun view_items :: "view \<Rightarrow> item list" where
  "view_items FolderNotFound = []"
| "view_items (SearchResults r) = allItems r"
| "view_items (Listing r) = allItems r"

fun view_shown :: "view \<Rightarrow> item list" where
  "view_shown FolderNotFound = []"
| "view_shown (SearchResults r) = shown r"
| "view_shown (Listing r) = shown r"

definition plain_host :: host where
  "plain_host = \<lparr>host_RegExp = (\<lambda>p. None),
                 host_localeCompare = (\<lambda>a b. if a < b then - 1 else if a = b then 0 else 1)\<rparr>"

section \<open>Folders matching a pattern\<close>

text \<open>\<open>getAllFolderPaths\<close>: the paths go into a \<open>Set\<close>, which keeps the order of insertion.\<close>

definition add_folder_paths :: "download \<Rightarrow> string list \<Rightarrow> string list" where
  "add_folder_paths d folderPaths =
     (let parts = split_slash (Name d)
      in fold (\<lambda>i acc. set_add (join_slash (take i parts)) acc) [1..<length parts] folderPaths)"

definition getAllFolderPaths :: "download list \<Rightarrow> string list" where
  "getAllFolderPaths allDownloads' = fold add_folder_paths allDownloads' []"

text \<open>
  \<open>matchedPaths\<close> is a \<open>Map\<close> in the order of insertion; \<open>set\<close> on a key that is there
  replaces its value in place.
\<close>

fun map_set :: "string \<Rightarrow> string \<Rightarrow> (string \<times> string) list \<Rightarrow> (string \<times> string) list" where
  "map_set k v [] = [(k, v)]"
| "map_set k v ((k', v') # m) = (if k' = k then (k, v) # m else (k', v') # map_set k v m)"

text \<open>The body of \<open>allFolders.forEach\<close>; \<open>new RegExp(pattern, 'i')\<close> may throw.\<close>

definition match_folder ::
  "host \<Rightarrow> string \<Rightarrow> regexp \<Rightarrow> string \<Rightarrow> (string \<times> string) list \<Rightarrow> error + (string \<times> string) list" where
  "match_folder h pattern regex folder matchedPaths =
     (if regex folder \<noteq> None then
        (case RegExp_i h pattern of
           None \<Rightarrow> Inl SyntaxError
         | Some re \<Rightarrow>
             (case re folder of
                None \<Rightarrow> Inr matchedPaths
              | Some (index, len) \<Rightarrow>
                  (let matchedPart = take (index + len) folder
                   in if (case map_of matchedPaths matchedPart of
                            None \<Rightarrow> True
                          | Some shortest \<Rightarrow> length folder < length shortest)
                      then Inr (map_set matchedPart matchedPart matchedPaths)
                      else Inr matchedPaths)))
      else Inr matchedPaths)"

fun match_folders ::
  "host \<Rightarrow> string \<Rightarrow> regexp \<Rightarrow> string list \<Rightarrow> (string \<times> string) list \<Rightarrow> error + (string \<times> string) list" where
  "match_folders h pattern regex [] matchedPaths = Inr matchedPaths"
| "match_folders h pattern regex (folder # rest) matchedPaths =
     (case match_folder h pattern regex folder matchedPaths of
        Inl e \<Rightarrow> Inl e
      | Inr m \<Rightarrow> match_folders h pattern regex rest m)"

text \<open>The body of \<open>allDownloads.forEach\<close> when no folder has matched.\<close>

definition match_file :: "regexp \<Rightarrow> download \<Rightarrow> (string \<times> string) list \<Rightarrow> (string \<times> string) list" where
  "match_file fileRegex d matchedPaths =
     (if fileRegex (Name d) \<noteq> None then
        (let parts = split_slash (Name d);
             parentPath' = join_slash (take (length parts - 1) parts)
         in if parentPath' \<noteq> [] \<and> map_of matchedPaths parentPath' = None
            then map_set parentPath' parentPath' matchedPaths
            else matchedPaths)
      else matchedPaths)"

definition matchFolders :: "host \<Rightarrow> download list \<Rightarrow> string \<Rightarrow> int \<Rightarrow> string \<Rightarrow> error + string list" where
  "matchFolders h allDownloads' pattern limit sortOrder =
     (let adjustedPattern = (if CHR ''$'' \<in> set pattern then pattern else pattern @ ''(?:/|$)'') in
      case RegExp_i h adjustedPattern of
        None \<Rightarrow> Inl SyntaxError
      | Some regex \<Rightarrow>
          (let allFolders = getAllFolderPaths allDownloads' in
           case match_folders h pattern regex allFolders [] of
             Inl e \<Rightarrow> Inl e
           | Inr matchedPaths \<Rightarrow>
               (case (if matchedPaths = [] then
                        (case RegExp_i h pattern of
                           None \<Rightarrow> Inl SyntaxError
                         | Some fileRegex \<Rightarrow> Inr (fold (match_file fileRegex) allDownloads' matchedPaths))
                      else Inr matchedPaths) of
                  Inl e \<Rightarrow> Inl e
                | Inr matchedPaths' \<Rightarrow>
                    (let sorted' = js_sort
                           (\<lambda>a b. if sortOrder = ''desc'' then host_localeCompare h b a
                                  else host_localeCompare h a b)
                           (map fst matchedPaths')
                     in Inr (js_slice sorted' 0 limit)))))"

section \<open>The page after loading\<close>

text \<open>
  The globals when \<open>loadData\<close> has stored the records and built the tree, with their
  initial values from the head of the script and an empty search box.
\<close>

definition loaded :: "download list \<Rightarrow> app_state" where
  "loaded ds =
     (let (T, c) = buildFolderTree ds
      in \<lparr>allDownloads = ds, folderTree = T, fileTypeCache = c, currentPath = [],
          activeFileTypes = {''Installer'', ''PDF'', ''ISO'', ''ZIP''}, currentPage = 1,
          sortBy = ''date-desc'', searchInput = []\<rparr>)"

text \<open>A record for the examples: a blob \<open>n\<close> of \<open>len\<close> bytes in the container \<open>files\<close>.\<close>

definition blob :: "string \<Rightarrow> int \<Rightarrow> download" where
  "blob n len =
     \<lparr>Name = n, Url = ''https://example.net/files/'' @ n, Length = len, LastModified = Some 0,
      ContentType = None\<rparr>"

section \<open>Wildcards, as the specification words them\<close>

text \<open>
  The specification of the wildcard mode, read as a relation between a needle and a piece
  of text: \<open>*\<close> stands for any run of characters and \<open>?\<close> for one character, both as the
  dot of a regular expression does (it matches no line terminator); every other character
  stands for itself, compared without case.
\<close>

fun wildcard_match :: "string \<Rightarrow> string \<Rightarrow> bool" where
  "wildcard_match [] s = (s = [])"
| "wildcard_match (c # p) s =
     (if c = CHR ''*'' then
        list_ex (\<lambda>k. (\<forall>x \<in> set (take k s). \<not> line_terminator x) \<and> wildcard_match p (drop k s))
                [0..<Suc (length s)]
      else
        (case s of
           [] \<Rightarrow> False
         | x # xs \<Rightarrow> (if c = CHR ''?'' then \<not> line_terminator x else ci_eq c x) \<and> wildcard_match p xs))"

text \<open>What the specification says of the pattern that is compiled, character by character.\<close>

definition wildcard_token :: "char \<Rightarrow> string" where
  "wildcard_token c =
     (if c = CHR ''*'' then ''.*''
      else if c = CHR ''?'' then ''.''
      else if c \<in> set ''.+^${}()|[]'' \<or> c = backslash then [backslash, c]
      else [c])"

text \<open>The atom that the token of a needle character parses to, and text without line terminators.\<close>

definition token_atom :: "char \<Rightarrow> atom" where
  "token_atom c = (if c = CHR ''*'' then AnyStar else if c = CHR ''?'' then AnyChar else Lit c)"

definition clean :: "string \<Rightarrow> bool" where
  "clean s = (\<forall>x \<in> set s. \<not> line_terminator x)"

text \<open>The three records of the scenario in the specification.\<close>

definition scenario :: "download list" where
  "scenario = [blob ''docs/readme.txt'' 500, blob ''docs/guide.pdf'' 1000, blob ''bin/app.exe'' 2000]"

section \<open>Paths of a record\<close>

text \<open>
  \<open>parentPath\<close> as \<open>buildFolderTree\<close> computes it, the paths \<open>parts.slice(0, i).join('/')\<close>
  of a record, the files and the folder names of a node that may be absent, and the part of
  \<open>add_download\<close> that works on the tree.
\<close>

definition parentPath :: "download \<Rightarrow> string" where
  "parentPath d = (let parts = split_slash (Name d) in join_slash (take (length parts - 1) parts))"

definition chain :: "download \<Rightarrow> nat \<Rightarrow> string" where
  "chain d i = join_slash (take i (split_slash (Name d)))"

definition files_at :: "tree \<Rightarrow> string \<Rightarrow> download list" where
  "files_at T p = (case T p of None \<Rightarrow> [] | Some n \<Rightarrow> files n)"

definition folders_at :: "tree \<Rightarrow> string \<Rightarrow> string set" where
  "folders_at T p = (case T p of None \<Rightarrow> {} | Some n \<Rightarrow> set (folders n))"

definition add_to_tree :: "download \<Rightarrow> tree \<Rightarrow> tree" where
  "add_to_tree d T =
     (let parts = split_slash (Name d);
          parentPath = join_slash (take (length parts - 1) parts);
          T1 = push_file (ensure_node T parentPath) parentPath d
      in fold (hierarchy_step parts) [0..<length parts - 1] T1)"

section \<open>Eligible records and subtrees\<close>

text \<open>
  What \<open>checkNode\<close> asks of a file, read without the cache: a positive length and, when
  types are selected, a selected type. The path of a child folder as the code forms it. A
  record lies under a path when the path is one of its own paths. The bound is above the
  length of every key of the tree.
\<close>

definition eligible :: "string set \<Rightarrow> download \<Rightarrow> bool" where
  "eligible A d = (0 < Length d \<and> (A = {} \<or> set_has A (name (classify (Url d)))))"

definition sub_path :: "string \<Rightarrow> string \<Rightarrow> string" where
  "sub_path p f = (if p \<noteq> [] then p @ ''/'' @ f else f)"

definition path_bound :: "download list \<Rightarrow> nat" where
  "path_bound ds = Suc (sum_list (map (length \<circ> Name) ds))"

definition lies_under :: "string \<Rightarrow> download \<Rightarrow> bool" where
  "lies_under q d = (\<exists>i < length (split_slash (Name d)). chain d i = q)"

text \<open>The two records of the pruning example in the specification, one byte each.\<close>

definition pruning_example :: "download list" where
  "pruning_example = [blob ''a/b/x.pdf'' 1, blob ''a/c/y.zip'' 1]"

section \<open>Evaluation\<close>

text \<open>The defining equations that evaluate the model on a given input.\<close>

lemmas model_defs =
  loaded_def blob_def buildFolderTree_def add_download_def hierarchy_step_def ensure_node_def
  push_file_def add_folder_def set_add_def empty_node_def getFileTypeInfo_def getFileExtension_def
  ext_stop_def typeMap_get_def typeMap_own_def entry_def generic_info_def set_has_def
  toLowerCase_def toUpperCase_def lower_char_def upper_char_def ascii_lower_def ascii_upper_def
  displayDownloads_def getCurrentViewItemCount_def filter_keep_def matchesSearch_def
  startsWith_def regular_search_def strip_whitespace_def whitespace_def
  folderHasMatchingFiles_def checkNode.simps renderSearchResults_def render_items_def
  sortFiles_def date_minus_def comparator_value_def js_sort_def pageItems_def js_slice_def itemsPerPage_def
  wildcardToRegex_def RegExp_i_def escape_special_def replace_star_def replace_question_def
  exec_atoms_def unterminated_class_def syntax_char_def backslash_def ci_eq_def line_terminator_def
  file_name_def plain_host_def Let_def

section \<open>Pagination: proofs\<close>

lemma totalPages_div: "totalPages n = (int n + 99) div 100"
proof -
  have "\<lceil>real_of_int (int n) / real_of_int 100\<rceil> = - ((- int n) div 100)"
    by (simp only: ceiling_def minus_divide_left of_int_minus [symmetric] floor_divide_of_int_eq)
  then have "\<lceil>real n / 100\<rceil> = (int n + 99) div 100" by simp
  then show ?thesis by (simp add: totalPages_def itemsPerPage_def)
qed

lemma pageItems_take_drop:
  assumes "1 \<le> p"
  shows "pageItems xs p = take 100 (drop (nat ((p - 1) * 100)) xs)"
proof -
  let ?s = "(p - 1) * 100"
  let ?n = "int (length xs)"
  have s0: "0 \<le> ?s" using assms by simp
  show ?thesis
  proof (cases "?s \<le> ?n")
    case True
    then have "pageItems xs p = take (nat (min (?s + 100) ?n - ?s)) (drop (nat ?s) xs)"
      using s0 by (simp add: pageItems_def js_slice_def itemsPerPage_def Let_def min_def)
    also have "\<dots> = take 100 (drop (nat ?s) xs)"
    proof (cases "?s + 100 \<le> ?n")
      case True
      then show ?thesis by (simp add: min_def)
    next
      case False
      have "nat (min (?s + 100) ?n - ?s) = length xs - nat ?s"
        using s0 False \<open>?s \<le> ?n\<close> by linarith
      then have "nat (min (?s + 100) ?n - ?s) = length (drop (nat ?s) xs)"
        by simp
      moreover have "length xs - nat ?s \<le> 100"
        using s0 False by linarith
      then have "length (drop (nat ?s) xs) \<le> 100"
        by simp
      ultimately show ?thesis by simp
    qed
    finally show ?thesis .
  next
    case False
    then have "drop (nat ?s) xs = []" using s0 by simp
    moreover have "pageItems xs p = []"
      using False s0 by (simp add: pageItems_def js_slice_def itemsPerPage_def Let_def min_def)
    ultimately show ?thesis by simp
  qed
qed

lemma concat_pages:
  "concat (map (\<lambda>k. take 100 (drop (k * 100) xs)) [0..<m]) = take (m * 100) xs"
proof (induction m)
  case 0
  show ?case by simp
next
  case (Suc m)
  have "take (m * 100) xs @ take 100 (drop (m * 100) xs) = take (m * 100 + 100) xs"
    by (simp add: take_add)
  with Suc show ?case by (simp add: add.commute)
qed

lemma upto_as_upt: "[1..int m] = map (\<lambda>k. int k + 1) [0..<m]"
proof (induction m)
  case 0
  show ?case by simp
next
  case (Suc m)
  have "[1..int (Suc m)] = [1..int m] @ [int m + 1]"
    by (simp add: upto_rec2 add.commute)
  with Suc show ?case by simp
qed

lemma concat_pageItems: "concat (map (pageItems xs) [1..totalPages (length xs)]) = xs"
proof -
  define m where "m = (length xs + 99) div 100"
  have tp: "totalPages (length xs) = int m"
    unfolding m_def totalPages_div by (simp add: zdiv_int)
  have "concat (map (pageItems xs) [1..int m]) =
        concat (map (\<lambda>k. take 100 (drop (k * 100) xs)) [0..<m])"
    by (simp add: upto_as_upt pageItems_take_drop comp_def nat_mult_distrib)
  also have "\<dots> = take (m * 100) xs" by (rule concat_pages)
  also have "\<dots> = xs"
  proof -
    have "length xs \<le> m * 100" unfolding m_def by presburger
    then show ?thesis by simp
  qed
  finally show ?thesis by (simp add: tp)
qed

lemma length_pageItems: "length (pageItems xs p) \<le> 100"
proof (cases "1 \<le> p")
  case True
  then show ?thesis by (simp add: pageItems_take_drop)
next
  case False
  then have "p \<le> 0" by simp
  then show ?thesis
    by (auto simp: pageItems_def js_slice_def itemsPerPage_def Let_def min_def max_def)
qed

text \<open>
  C5. For an ordered result list of \<open>N\<close> items and the page size 100, the page count is
  \<open>ceil(N / 100)\<close>, the least number of pages of 100 that hold \<open>N\<close> items; the page
  slices of the pages \<open>1\<close> to \<open>ceil(N / 100)\<close>, one after the other, are the list itself,
  so their lengths add up to \<open>N\<close>; no slice, for any page number, has more than 100
  items; and a result with no items has 0 pages and an empty slice.
\<close>

theorem pagination_total:
  "totalPages (length xs) = \<lceil>real (length xs) / 100\<rceil>
   \<and> int (length xs) \<le> 100 * totalPages (length xs)
   \<and> 100 * (totalPages (length xs) - 1) < int (length xs)
   \<and> concat (map (pageItems xs) [1..totalPages (length xs)]) = xs
   \<and> sum_list (map (\<lambda>p. length (pageItems xs p)) [1..totalPages (length xs)]) = length xs
   \<and> length (pageItems xs p) \<le> 100
   \<and> totalPages 0 = 0
   \<and> pageItems ([] :: 'a list) p = []"
proof -
  have c: "concat (map (pageItems xs) [1..totalPages (length xs)]) = xs"
    by (rule concat_pageItems)
  have "length (concat (map (pageItems xs) [1..totalPages (length xs)])) = length xs"
    by (simp only: c)
  then have s: "sum_list (map (\<lambda>p. length (pageItems xs p)) [1..totalPages (length xs)]) = length xs"
    by (simp add: length_concat comp_def)
  have e: "pageItems ([] :: 'a list) p = []"
    by (simp add: pageItems_def js_slice_def Let_def)
  have t: "totalPages (length xs) = \<lceil>real (length xs) / 100\<rceil>"
    by (simp add: totalPages_def itemsPerPage_def)
  have b1: "int (length xs) \<le> 100 * totalPages (length xs)"
    unfolding totalPages_div by presburger
  have b2: "100 * (totalPages (length xs) - 1) < int (length xs)"
    unfolding totalPages_div by presburger
  have z: "totalPages 0 = 0" by (simp add: totalPages_def)
  show ?thesis using t b1 b2 c s length_pageItems [of xs p] z e by blast
qed

section \<open>Page navigation: proofs\<close>

lemma currentPage_redraw: "currentPage (fst (redraw h st)) = currentPage st"
  by (simp add: redraw_def split: sum.splits prod.splits)

lemma nextPage_page:
  assumes "getCurrentViewItemCount h st = Inr (n, c)"
  shows "currentPage (fst (nextPage h st)) =
         (if currentPage st < totalPages n then currentPage st + 1 else currentPage st)"
  using assms by (simp add: nextPage_def Let_def currentPage_redraw)

lemma nextPage_throws:
  assumes "getCurrentViewItemCount h st = Inl e"
  shows "nextPage h st = (st, Some e)"
  using assms by (simp add: nextPage_def)

lemma prevPage_page:
  "currentPage (fst (prevPage h st)) = (if currentPage st > 1 then currentPage st - 1 else currentPage st)"
  by (simp add: prevPage_def currentPage_redraw)

lemma lastPage_page:
  assumes "getCurrentViewItemCount h st = Inr (n, c)"
  shows "currentPage (fst (lastPage h st)) = totalPages n"
  using assms by (simp add: lastPage_def Let_def currentPage_redraw)

text \<open>
  C10. With \<open>n\<close> the item count of the current view: from a page in \<open>[1, totalPages]\<close>,
  \<open>nextPage\<close> and \<open>prevPage\<close> leave a page in \<open>[1, totalPages]\<close>; \<open>nextPage\<close> on the last
  page (or beyond it) and \<open>prevPage\<close> on the first page (or before it) change no page
  number and draw nothing; \<open>lastPage\<close> sets the page number to \<open>ceil(n / 100)\<close>, which is 0
  when the view has no items.
\<close>

theorem page_navigation_bounds:
  assumes "getCurrentViewItemCount h st = Inr (n, c)"
  shows "(1 \<le> currentPage st \<and> currentPage st \<le> totalPages n \<longrightarrow>
            1 \<le> currentPage (fst (nextPage h st)) \<and> currentPage (fst (nextPage h st)) \<le> totalPages n \<and>
            1 \<le> currentPage (fst (prevPage h st)) \<and> currentPage (fst (prevPage h st)) \<le> totalPages n)
       \<and> (totalPages n \<le> currentPage st \<longrightarrow> nextPage h st = (st\<lparr>fileTypeCache := c\<rparr>, None))
       \<and> (currentPage st \<le> 1 \<longrightarrow> prevPage h st = (st, None))
       \<and> currentPage (fst (lastPage h st)) = totalPages n
       \<and> (n = 0 \<longrightarrow> currentPage (fst (lastPage h st)) = 0)"
proof -
  have a: "1 \<le> currentPage st \<and> currentPage st \<le> totalPages n \<longrightarrow>
            1 \<le> currentPage (fst (nextPage h st)) \<and> currentPage (fst (nextPage h st)) \<le> totalPages n \<and>
            1 \<le> currentPage (fst (prevPage h st)) \<and> currentPage (fst (prevPage h st)) \<le> totalPages n"
    by (simp add: nextPage_page [OF assms] prevPage_page)
  have b: "totalPages n \<le> currentPage st \<longrightarrow> nextPage h st = (st\<lparr>fileTypeCache := c\<rparr>, None)"
    using assms by (simp add: nextPage_def Let_def)
  have c: "currentPage st \<le> 1 \<longrightarrow> prevPage h st = (st, None)"
    by (simp add: prevPage_def)
  have d: "currentPage (fst (lastPage h st)) = totalPages n"
    by (rule lastPage_page [OF assms])
  have e: "n = 0 \<longrightarrow> currentPage (fst (lastPage h st)) = 0"
    by (simp add: d totalPages_def)
  show ?thesis using a b c d e by blast
qed

theorem page_navigation_bounds_witness:
  "currentPage (loaded [blob ''readme.pdf'' 5]) = 1
   \<and> currentPage (fst (nextPage plain_host (loaded [blob ''readme.pdf'' 5]))) = 1
   \<and> currentPage (fst (prevPage plain_host (loaded [blob ''readme.pdf'' 5]))) = 1
   \<and> nextPage plain_host (loaded [blob ''readme.pdf'' 5]) = (loaded [blob ''readme.pdf'' 5], None)
   \<and> prevPage plain_host (loaded [blob ''readme.pdf'' 5]) = (loaded [blob ''readme.pdf'' 5], None)
   \<and> getCurrentViewItemCount plain_host (loaded []) = Inr (0, Map.empty)
   \<and> currentPage (loaded []) = 1
   \<and> currentPage (fst (lastPage plain_host (loaded []))) = 0"
proof -
  let ?s1 = "loaded [blob ''readme.pdf'' 5]"
  have c1: "getCurrentViewItemCount plain_host ?s1 = Inr (1, fileTypeCache ?s1)"
    by (simp add: model_defs)
  have c0: "getCurrentViewItemCount plain_host (loaded []) = Inr (0, Map.empty)"
    by (simp add: model_defs)
  have p1: "currentPage ?s1 = 1" and p0: "currentPage (loaded []) = 1"
    by (simp_all add: loaded_def split_beta)
  have t1: "totalPages 1 = 1" and t0: "totalPages 0 = 0"
    by (simp_all add: totalPages_div)
  have e: "?s1\<lparr>fileTypeCache := fileTypeCache ?s1\<rparr> = ?s1"
    by simp
  from page_navigation_bounds [OF c1]
  have "currentPage (fst (nextPage plain_host ?s1)) = 1
        \<and> currentPage (fst (prevPage plain_host ?s1)) = 1
        \<and> nextPage plain_host ?s1 = (?s1, None) \<and> prevPage plain_host ?s1 = (?s1, None)"
    unfolding p1 t1 e by auto
  moreover from page_navigation_bounds [OF c0]
  have "currentPage (fst (lastPage plain_host (loaded []))) = 0"
    by simp
  ultimately show ?thesis using p1 p0 c0 by simp
qed

section \<open>Zero-byte records: proofs\<close>

lemma set_insert_cmp: "set (insert_cmp cmp x xs) = insert x (set xs)"
  by (induction xs) auto

lemma set_js_sort: "set (js_sort cmp xs) = set xs"
  unfolding js_sort_def by (induction xs) (simp_all add: set_insert_cmp)

lemma set_sortFiles: "set (sortFiles h k xs) = set xs"
  by (simp add: sortFiles_def set_js_sort)

lemma set_js_slice: "set (js_slice xs a b) \<subseteq> set xs"
proof -
  have "set (take m (drop k xs)) \<subseteq> set xs" for m k
    using set_take_subset [of m "drop k xs"] set_drop_subset [of k xs] by blast
  then show ?thesis by (simp add: js_slice_def Let_def)
qed

lemma set_pageItems: "set (pageItems xs p) \<subseteq> set xs"
  by (simp add: pageItems_def Let_def set_js_slice)

lemma filter_keep_positive:
  assumes "filter_keep h opts d c = Inr (True, c1)" and "excludeZeroByte opts"
  shows "0 < Length d"
  using assms by (cases "Length d \<le> 0") (simp_all add: filter_keep_def)

lemma filterDownloads_kept:
  assumes "filterDownloads h ds opts c = Inr (kept, c1)" and "excludeZeroByte opts"
  shows "\<forall>d \<in> set kept. d \<in> set ds \<and> 0 < Length d"
  using assms
proof (induction ds arbitrary: kept c c1)
  case Nil
  then show ?case by simp
next
  case (Cons x xs)
  from Cons.prems(1) obtain b c2 where k: "filter_keep h opts x c = Inr (b, c2)"
    by (auto split: sum.splits)
  with Cons.prems(1) obtain kept' where r: "filterDownloads h xs opts c2 = Inr (kept', c1)"
    and kept: "kept = (if b then x # kept' else kept')"
    by (auto split: sum.splits)
  from Cons.IH [OF r Cons.prems(2)] have ih: "\<forall>d \<in> set kept'. d \<in> set xs \<and> 0 < Length d" .
  show ?case
  proof (cases b)
    case True
    with k have "filter_keep h opts x c = Inr (True, c2)" by simp
    then have "0 < Length x" by (rule filter_keep_positive) (rule Cons.prems(2))
    with ih kept True show ?thesis by auto
  next
    case False
    with ih kept show ?thesis by auto
  qed
qed

lemma displayDownloads_items:
  assumes "displayDownloads h st = Inr (v, c)"
  shows "set (view_shown v) \<subseteq> set (view_items v)
         \<and> (\<forall>d. FileItem d \<in> set (view_items v) \<longrightarrow> 0 < Length d)"
proof (cases "toLowerCase (searchInput st) \<noteq> []")
  case True
  with assms obtain kept where
    f: "filterDownloads h (allDownloads st)
          \<lparr>searchTerm = toLowerCase (searchInput st), fileTypes = activeFileTypes st, excludeZeroByte = True\<rparr>
          (fileTypeCache st) = Inr (kept, c)"
    and v: "v = SearchResults (renderSearchResults h st kept)"
    by (auto simp: displayDownloads_def Let_def split: sum.splits)
  from filterDownloads_kept [OF f] have "\<forall>d \<in> set kept. 0 < Length d" by simp
  then show ?thesis
    using set_pageItems [of "map FileItem (sortFiles h (sortBy st) kept)" "currentPage st"]
    by (auto simp: v renderSearchResults_def render_items_def Let_def set_sortFiles)
next
  case False
  show ?thesis
  proof (cases "folderTree st (join_slash (currentPath st))")
    case None
    with False assms show ?thesis by (auto simp: displayDownloads_def Let_def)
  next
    case (Some node)
    with False assms obtain kept c1 fs where
      f: "filterDownloads h (files node)
            \<lparr>searchTerm = [], fileTypes = activeFileTypes st, excludeZeroByte = True\<rparr>
            (fileTypeCache st) = Inr (kept, c1)"
      and v: "v = Listing (render_items (map FolderItem (sort fs) @ map FileItem (sortFiles h (sortBy st) kept))
                             (currentPage st))"
      by (auto simp: displayDownloads_def Let_def split: sum.splits option.splits)
    from filterDownloads_kept [OF f] have "\<forall>d \<in> set kept. 0 < Length d" by simp
    then show ?thesis
      using set_pageItems [of "map FolderItem (sort fs) @ map FileItem (sortFiles h (sortBy st) kept)"
                              "currentPage st"]
      by (auto simp: v render_items_def set_sortFiles)
  qed
qed

text \<open>
  C3. Whatever the search text, the path, the type filter, the sort order and the page: a
  record whose length is 0 (or less) is neither among the items that \<open>displayDownloads\<close>
  computes, in search mode or in browse mode, nor on the page it shows.
\<close>

theorem zero_byte_excluded:
  assumes "displayDownloads h st = Inr (v, c)" and "Length d \<le> 0"
  shows "FileItem d \<notin> set (view_items v) \<and> FileItem d \<notin> set (view_shown v)"
proof -
  from displayDownloads_items [OF assms(1)]
  have s: "set (view_shown v) \<subseteq> set (view_items v)"
    and p: "\<forall>d. FileItem d \<in> set (view_items v) \<longrightarrow> 0 < Length d"
    by simp_all
  from p assms(2) have "FileItem d \<notin> set (view_items v)" by force
  with s show ?thesis by blast
qed

theorem zero_byte_excluded_witness:
  "Length (blob ''x0.pdf'' 0) \<le> 0
   \<and> displayDownloads plain_host ((loaded [blob ''x0.pdf'' 0, blob ''x1.pdf'' 5])\<lparr>searchInput := ''X''\<rparr>)
       = Inr (SearchResults
                \<lparr>allItems = [FileItem (blob ''x1.pdf'' 5)], totalItems = 1, pages = 1,
                 shown = [FileItem (blob ''x1.pdf'' 5)]\<rparr>,
              fileTypeCache (loaded [blob ''x0.pdf'' 0, blob ''x1.pdf'' 5]))
   \<and> FileItem (blob ''x0.pdf'' 0) \<notin> set [FileItem (blob ''x1.pdf'' 5)]"
proof -
  let ?st = "(loaded [blob ''x0.pdf'' 0, blob ''x1.pdf'' 5])\<lparr>searchInput := ''X''\<rparr>"
  let ?v = "SearchResults
                \<lparr>allItems = [FileItem (blob ''x1.pdf'' 5)], totalItems = 1, pages = 1,
                 shown = [FileItem (blob ''x1.pdf'' 5)]\<rparr>"
  have d: "displayDownloads plain_host ?st =
           Inr (?v, fileTypeCache (loaded [blob ''x0.pdf'' 0, blob ''x1.pdf'' 5]))"
    by (simp add: model_defs totalPages_div)
  have l: "Length (blob ''x0.pdf'' 0) \<le> 0"
    by (simp add: blob_def)
  from zero_byte_excluded [OF d l] have "FileItem (blob ''x0.pdf'' 0) \<notin> set (view_items ?v)"
    by simp
  with d l show ?thesis by simp
qed

section \<open>File types: proofs\<close>

text \<open>
  The cache only memoises: on a cache whose entries are values of \<open>classify\<close>, the
  answer of \<open>getFileTypeInfo\<close> is the value of \<open>classify\<close>, and the cache stays such.
\<close>

lemma getFileTypeInfo_classify:
  assumes "cache_ok c"
  shows "fst (getFileTypeInfo c d) = classify (Url d) \<and> cache_ok (snd (getFileTypeInfo c d))"
proof (cases "c (Url d)")
  case None
  then have "getFileTypeInfo c d = (classify (Url d), c(Url d \<mapsto> classify (Url d)))"
    by (simp add: getFileTypeInfo_def classify_def Let_def)
  with assms show ?thesis by (simp add: cache_ok_def)
next
  case (Some r)
  then have "getFileTypeInfo c d = (r, c)"
    by (simp add: getFileTypeInfo_def)
  with assms Some show ?thesis by (simp add: cache_ok_def)
qed

lemma classify_generic:
  assumes "map_of typeMap_own ext = None" and "ext \<noteq> ''constructor''" and "ext \<noteq> ''__proto__''"
  shows "typeMap_get ext = None"
  using assms by (simp add: typeMap_get_def)

text \<open>
  C8, at a record whose extension is \<open>constructor\<close>: the extension is not in the table,
  and the label is not the extension in upper case but \<open>Object\<close>, with no icon.
\<close>

theorem classify_constructor:
  "getFileExtension (Url (blob ''tools/setup.constructor'' 10)) = ''constructor''
   \<and> map_of typeMap_own ''constructor'' = None
   \<and> toUpperCase ''constructor'' = ''CONSTRUCTOR''
   \<and> fst (getFileTypeInfo Map.empty (blob ''tools/setup.constructor'' 10))
       = \<lparr>icon = None, name = Some ''Object'', color = None\<rparr>"
  by (simp add: model_defs)

lemma classify_table:
  assumes "map_of typeMap_own (getFileExtension u) = Some v"
  shows "classify u = v"
  using assms by (simp add: classify_def typeMap_get_def)

lemma classify_other:
  assumes "map_of typeMap_own (getFileExtension u) = None"
    and "getFileExtension u \<noteq> ''constructor''" and "getFileExtension u \<noteq> ''__proto__''"
  shows "name (classify u) = Some (toUpperCase (getFileExtension u))"
  using assms by (simp add: classify_def typeMap_get_def generic_info_def)

lemma classify_extensionless:
  assumes "ext_match u = None"
  shows "getFileExtension u = ''unknown''"
    and "classify u = \<lparr>icon = Some IconFile, name = Some ''UNKNOWN'', color = Some ''#757575''\<rparr>"
  using assms by (simp_all add: classify_def model_defs)


section \<open>Search matching: proofs\<close>

lemma matchesSearch_regex_mode:
  assumes "startsWith needle ''/'' \<or> startsWith needle ''^''"
  shows "matchesSearch h haystack needle =
         Inr (case RegExp_i h (if startsWith needle ''/'' then drop 1 needle else needle) of
                Some regex \<Rightarrow> regex haystack \<noteq> None
              | None \<Rightarrow> str_includes haystack needle)"
  using assms by (simp add: matchesSearch_def Let_def split: option.splits)

lemma RegExp_i_open_bracket: "RegExp_i h ''['' = None"
  by (simp add: RegExp_i_def unterminated_class_def syntax_char_def backslash_def)

text \<open>
  C6, as the code has it. In the regular-expression mode \<open>matchesSearch\<close> never throws;
  when the pattern does not compile, the answer is \<open>text.includes(searchTerm)\<close>: the plain
  containment of the needle as it was typed, with its leading \<open>/\<close> or \<open>^\<close>. The pattern
  \<open>[\<close> does not compile, and \<open>matchesSearch("abc", "/[")\<close> is false.
\<close>

theorem regex_fallback:
  "(startsWith needle ''/'' \<or> startsWith needle ''^'' \<longrightarrow>
      (\<exists>b. matchesSearch h haystack needle = Inr b))
   \<and> ((startsWith needle ''/'' \<or> startsWith needle ''^'')
        \<and> RegExp_i h (if startsWith needle ''/'' then drop 1 needle else needle) = None \<longrightarrow>
      matchesSearch h haystack needle = Inr (str_includes haystack needle))
   \<and> RegExp_i h ''['' = None
   \<and> matchesSearch h ''abc'' ''/['' = Inr False"
proof -
  have a: "startsWith needle ''/'' \<or> startsWith needle ''^'' \<longrightarrow>
           (\<exists>b. matchesSearch h haystack needle = Inr b)"
    by (simp add: matchesSearch_regex_mode)
  have b: "(startsWith needle ''/'' \<or> startsWith needle ''^'')
        \<and> RegExp_i h (if startsWith needle ''/'' then drop 1 needle else needle) = None \<longrightarrow>
      matchesSearch h haystack needle = Inr (str_includes haystack needle)"
    by (auto simp: matchesSearch_regex_mode)
  have c: "matchesSearch h ''abc'' ''/['' = Inr False"
    by (simp add: matchesSearch_def startsWith_def RegExp_i_open_bracket)
  show ?thesis using a b c RegExp_i_open_bracket by blast
qed

theorem regex_fallback_witness:
  "startsWith ''/[ x'' ''/''
   \<and> RegExp_i plain_host (if startsWith ''/[ x'' ''/'' then drop 1 ''/[ x'' else ''/[ x'') = None
   \<and> matchesSearch plain_host ''docs/[ x].txt'' ''/[ x'' = Inr True"
proof -
  have s: "startsWith ''/[ x'' ''/''"
    by (simp add: startsWith_def)
  have r: "RegExp_i plain_host (if startsWith ''/[ x'' ''/'' then drop 1 ''/[ x'' else ''/[ x'') = None"
    by (simp add: RegExp_i_def startsWith_def unterminated_class_def syntax_char_def backslash_def)
  have i: "str_includes ''docs/[ x].txt'' ''/[ x''"
    by simp
  from regex_fallback [of "''/[ x''" plain_host "''docs/[ x].txt''"] s r i
  have "matchesSearch plain_host ''docs/[ x].txt'' ''/[ x'' = Inr True"
    by simp
  with s r show ?thesis by simp
qed

text \<open>
  The fallback is not the regular search of the last branch: for the needle \<open>/[ x\<close>,
  whose pattern \<open>[ x\<close> does not compile, and the text \<open>a/[x\<close>, the regular search
  matches (without the spaces the text contains the needle) and \<open>matchesSearch\<close> does not.
\<close>

theorem regex_fallback_not_regular_search:
  "startsWith ''/[ x'' ''/''
   \<and> RegExp_i plain_host (drop 1 ''/[ x'') = None
   \<and> matchesSearch plain_host ''a/[x'' ''/[ x'' = Inr False
   \<and> regular_search ''a/[x'' ''/[ x''"
  by (simp add: matchesSearch_def startsWith_def RegExp_i_def unterminated_class_def syntax_char_def
      backslash_def regular_search_def strip_whitespace_def whitespace_def)

subsection \<open>The wildcard mode\<close>

lemma replace_append:
  "replace_star (a @ b) = replace_star a @ replace_star b"
  "replace_question (a @ b) = replace_question a @ replace_question b"
  by (simp_all add: replace_star_def replace_question_def)

lemma translate_token:
  "replace_question (replace_star (escape_special [c])) = wildcard_token c"
  by (simp add: escape_special_def replace_star_def replace_question_def wildcard_token_def backslash_def)

lemma translate_tokens:
  "replace_question (replace_star (escape_special p)) = concat (map wildcard_token p)"
proof (induction p)
  case Nil
  show ?case by (simp add: escape_special_def replace_star_def replace_question_def)
next
  case (Cons c p)
  have "escape_special (c # p) = escape_special [c] @ escape_special p"
    by (simp add: escape_special_def)
  then show ?case
    by (simp only: replace_append translate_token Cons.IH) simp
qed

lemma tokens_no_star: "concat (map wildcard_token p) = s # ss \<Longrightarrow> s \<noteq> CHR ''*''"
  by (cases p) (auto simp: wildcard_token_def backslash_def split: if_splits)

lemma parse_tokens: "parse_pattern (concat (map wildcard_token p)) = Some (map token_atom p)"
proof (induction p)
  case Nil
  show ?case by simp
next
  case (Cons c p)
  let ?rest = "concat (map wildcard_token p)"
  consider (star) "c = CHR ''*''" | (quest) "c = CHR ''?''"
    | (special) "c \<noteq> CHR ''*''" "c \<noteq> CHR ''?''" "c \<in> set ''.+^${}()|[]'' \<or> c = backslash"
    | (plain) "c \<noteq> CHR ''*''" "c \<noteq> CHR ''?''" "\<not> (c \<in> set ''.+^${}()|[]'' \<or> c = backslash)"
    by blast
  then show ?case
  proof cases
    case star
    then have tk: "wildcard_token c = ''.*''" and ta: "token_atom c = AnyStar"
      by (simp_all add: wildcard_token_def token_atom_def)
    show ?thesis using Cons.IH by (simp add: tk ta backslash_def)
  next
    case quest
    then have tk: "wildcard_token c = ''.''" and ta: "token_atom c = AnyChar"
      by (simp_all add: wildcard_token_def token_atom_def)
    show ?thesis
    proof (cases ?rest)
      case Nil
      with Cons.IH have "map token_atom p = []" by simp
      with Nil show ?thesis by (simp add: tk ta backslash_def)
    next
      case (Cons s ss)
      then have "s \<noteq> CHR ''*''" by (rule tokens_no_star)
      with Cons Cons.IH show ?thesis
        by (simp add: tk ta backslash_def)
    qed
  next
    case special
    then have tk: "wildcard_token c = [backslash, c]" and ta: "token_atom c = Lit c"
      by (simp_all add: wildcard_token_def token_atom_def)
    from special have "syntax_char c" by (auto simp: syntax_char_def)
    with Cons.IH show ?thesis
      by (simp add: tk ta)
  next
    case plain
    then have tk: "wildcard_token c = [c]" and ta: "token_atom c = Lit c"
      by (simp_all add: wildcard_token_def token_atom_def)
    from plain have "\<not> syntax_char c" "c \<noteq> CHR ''.''" "c \<noteq> CHR ''(''" "c \<noteq> backslash"
      by (auto simp: syntax_char_def)
    with Cons.IH show ?thesis
      by (simp add: tk ta)
  qed
qed


lemma list_ex_upt: "list_ex P [0..<Suc n] = (\<exists>k\<le>n. P k)"
  by (auto simp del: upt_Suc simp: list_ex_iff less_Suc_eq_le)

lemma wildcard_match_star:
  "wildcard_match (CHR ''*'' # p) s = (\<exists>k\<le>length s. clean (take k s) \<and> wildcard_match p (drop k s))"
  by (simp add: list_ex_upt clean_def del: upt_Suc)

lemma match_star:
  "(match_here (AnyStar # as) s \<noteq> None) =
   (\<exists>k\<le>length s. clean (take k s) \<and> match_here as (drop k s) \<noteq> None)"
proof (induction s)
  case Nil
  show ?case by (simp add: clean_def)
next
  case (Cons x xs)
  show ?case
  proof (cases "line_terminator x")
    case True
    have "(\<exists>k\<le>length (x # xs). clean (take k (x # xs)) \<and> match_here as (drop k (x # xs)) \<noteq> None)
          = (match_here as (x # xs) \<noteq> None)" (is "?L = ?R")
    proof
      assume ?L
      then obtain k where k: "k \<le> length (x # xs)" "clean (take k (x # xs))"
        "match_here as (drop k (x # xs)) \<noteq> None" by blast
      from k(2) True have "k = 0" by (cases k) (auto simp: clean_def)
      with k(3) show ?R by simp
    next
      assume ?R
      then have "clean (take 0 (x # xs)) \<and> match_here as (drop 0 (x # xs)) \<noteq> None"
        by (simp add: clean_def)
      then show ?L by blast
    qed
    with True show ?thesis by simp
  next
    case False
    have "(\<exists>k\<le>length (x # xs). clean (take k (x # xs)) \<and> match_here as (drop k (x # xs)) \<noteq> None)
          = (match_here as (x # xs) \<noteq> None
             \<or> (\<exists>k\<le>length xs. clean (take k xs) \<and> match_here as (drop k xs) \<noteq> None))"
      (is "?L = (?A \<or> ?B)")
    proof
      assume ?L
      then obtain k where k: "k \<le> length (x # xs)" "clean (take k (x # xs))"
        "match_here as (drop k (x # xs)) \<noteq> None" by blast
      show "?A \<or> ?B"
      proof (cases k)
        case 0
        with k(3) show ?thesis by simp
      next
        case (Suc j)
        with k have "j \<le> length xs \<and> clean (take j xs) \<and> match_here as (drop j xs) \<noteq> None"
          by (simp add: clean_def)
        then show ?thesis by blast
      qed
    next
      assume "?A \<or> ?B"
      then show ?L
      proof
        assume ?A
        then have "clean (take 0 (x # xs)) \<and> match_here as (drop 0 (x # xs)) \<noteq> None"
          by (simp add: clean_def)
        then show ?L by blast
      next
        assume ?B
        then obtain j where "j \<le> length xs" "clean (take j xs)" "match_here as (drop j xs) \<noteq> None"
          by blast
        with False have "Suc j \<le> length (x # xs) \<and> clean (take (Suc j) (x # xs))
            \<and> match_here as (drop (Suc j) (x # xs)) \<noteq> None"
          by (simp add: clean_def)
        then show ?L by blast
      qed
    qed
    with False Cons.IH show ?thesis by (auto split: option.splits)
  qed
qed

lemma match_tokens:
  "(match_here (map token_atom p) s \<noteq> None) = (\<exists>k\<le>length s. wildcard_match p (take k s))"
proof (induction p arbitrary: s)
  case Nil
  have "wildcard_match [] (take 0 s)" by simp
  then show ?case by auto
next
  case (Cons c p)
  show ?case
  proof (cases "c = CHR ''*''")
    case True
    have "(\<exists>k\<le>length s. wildcard_match (c # p) (take k s))
        = (\<exists>j\<le>length s. clean (take j s) \<and> (\<exists>k\<le>length (drop j s). wildcard_match p (take k (drop j s))))"
      (is "?L = ?R")
    proof
      assume ?L
      then obtain m where m: "m \<le> length s" "wildcard_match (CHR ''*'' # p) (take m s)"
        using True by blast
      from m(2) obtain j where j: "j \<le> length (take m s)" "clean (take j (take m s))"
        "wildcard_match p (drop j (take m s))"
        unfolding wildcard_match_star by blast
      from j(1) m(1) have jm: "j \<le> m" by simp
      then have "take j (take m s) = take j s" by (simp add: min_def)
      moreover have "drop j (take m s) = take (m - j) (drop j s)" by (simp add: drop_take)
      moreover have "m - j \<le> length (drop j s)" using m(1) by simp
      ultimately show ?R using j jm m(1) by (metis le_trans)
    next
      assume ?R
      then obtain j k where jk: "j \<le> length s" "clean (take j s)" "k \<le> length (drop j s)"
        "wildcard_match p (take k (drop j s))" by blast
      let ?m = "j + k"
      have "?m \<le> length s" using jk(1,3) by simp
      moreover have "take j (take ?m s) = take j s" by (simp add: min_def)
      moreover have "drop j (take ?m s) = take k (drop j s)" by (simp add: drop_take)
      moreover have "j \<le> length (take ?m s)" using jk(1) by simp
      ultimately have "?m \<le> length s \<and> wildcard_match (CHR ''*'' # p) (take ?m s)"
        unfolding wildcard_match_star using jk(2,4) by metis
      with True show ?L by blast
    qed
    moreover from True have "map token_atom (c # p) = AnyStar # map token_atom p"
      by (simp add: token_atom_def)
    then have "(match_here (map token_atom (c # p)) s \<noteq> None)
        = (\<exists>j\<le>length s. clean (take j s) \<and> match_here (map token_atom p) (drop j s) \<noteq> None)"
      by (simp only: match_star)
    ultimately show ?thesis
      by (simp only: Cons.IH)
  next
    case False
    show ?thesis
    proof (cases s)
      case Nil
      with False show ?thesis by (simp add: token_atom_def)
    next
      case (Cons x xs)
      let ?ok = "if c = CHR ''?'' then \<not> line_terminator x else ci_eq c x"
      have "(\<exists>k\<le>length (x # xs). wildcard_match (c # p) (take k (x # xs)))
          = (?ok \<and> (\<exists>k\<le>length xs. wildcard_match p (take k xs)))" (is "?L = ?R")
      proof
        assume ?L
        then obtain k where k: "k \<le> length (x # xs)" "wildcard_match (c # p) (take k (x # xs))"
          by blast
        show ?R
        proof (cases k)
          case 0
          with k(2) False show ?thesis by simp
        next
          case (Suc j)
          with k False have "?ok \<and> j \<le> length xs \<and> wildcard_match p (take j xs)" by simp
          then show ?thesis by blast
        qed
      next
        assume ?R
        then obtain j where "?ok" "j \<le> length xs" "wildcard_match p (take j xs)" by blast
        with False have "Suc j \<le> length (x # xs) \<and> wildcard_match (c # p) (take (Suc j) (x # xs))"
          by simp
        then show ?L by blast
      qed
      with False Cons Cons.IH [of xs] show ?thesis
        by (auto simp: token_atom_def simp del: wildcard_match.simps)
    qed
  qed
qed

lemma exec_from_iff:
  "(exec_from as s i \<noteq> None) = (\<exists>k\<le>length s. match_here as (drop k s) \<noteq> None)"
proof (induction s arbitrary: i)
  case Nil
  show ?case by (simp split: option.splits)
next
  case (Cons x xs)
  have "(\<exists>k\<le>length (x # xs). match_here as (drop k (x # xs)) \<noteq> None)
      = (match_here as (x # xs) \<noteq> None \<or> (\<exists>k\<le>length xs. match_here as (drop k xs) \<noteq> None))"
    (is "?L = (?A \<or> ?B)")
  proof
    assume ?L
    then obtain k where k: "k \<le> length (x # xs)" "match_here as (drop k (x # xs)) \<noteq> None" by blast
    show "?A \<or> ?B"
    proof (cases k)
      case 0
      with k show ?thesis by simp
    next
      case (Suc j)
      with k have "j \<le> length xs \<and> match_here as (drop j xs) \<noteq> None" by simp
      then show ?thesis by blast
    qed
  next
    assume "?A \<or> ?B"
    then show ?L
    proof
      assume ?A
      then have "match_here as (drop 0 (x # xs)) \<noteq> None" by simp
      then show ?L by blast
    next
      assume ?B
      then obtain j where "j \<le> length xs" "match_here as (drop j xs) \<noteq> None" by blast
      then have "Suc j \<le> length (x # xs) \<and> match_here as (drop (Suc j) (x # xs)) \<noteq> None" by simp
      then show ?L by blast
    qed
  qed
  with Cons.IH [of "Suc i"] show ?case
    by (cases "match_here as (x # xs)") (simp_all del: exec_from.simps add: exec_from.simps [of as "x # xs"])
qed

lemma contains_iff:
  "(\<exists>i\<le>length s. \<exists>k\<le>length (drop i s). P (take k (drop i s)))
   = (\<exists>pre mid post. s = pre @ mid @ post \<and> P mid)"
proof
  assume "\<exists>i\<le>length s. \<exists>k\<le>length (drop i s). P (take k (drop i s))"
  then obtain i k where "P (take k (drop i s))" by blast
  moreover have "s = take i s @ take k (drop i s) @ drop k (drop i s)"
    by (simp only: append_take_drop_id)
  ultimately show "\<exists>pre mid post. s = pre @ mid @ post \<and> P mid" by blast
next
  assume "\<exists>pre mid post. s = pre @ mid @ post \<and> P mid"
  then obtain pre mid post where s: "s = pre @ mid @ post" and p: "P mid" by blast
  have "length pre \<le> length s" "length mid \<le> length (drop (length pre) s)"
    "take (length mid) (drop (length pre) s) = mid"
    by (simp_all add: s)
  with p show "\<exists>i\<le>length s. \<exists>k\<le>length (drop i s). P (take k (drop i s))" by metis
qed

lemma wildcardToRegex_tokens:
  "wildcardToRegex h needle = Some (exec_atoms (map token_atom needle))"
  by (simp add: wildcardToRegex_def Let_def translate_tokens RegExp_i_def parse_tokens)

lemma matchesSearch_wildcard_mode:
  assumes "\<not> startsWith needle ''/''" and "\<not> startsWith needle ''^''"
    and "CHR ''*'' \<in> set needle \<or> CHR ''?'' \<in> set needle"
  shows "matchesSearch h haystack needle =
         Inr (\<exists>pre mid post. haystack = pre @ mid @ post \<and> wildcard_match needle mid)"
proof -
  have "matchesSearch h haystack needle = Inr (exec_atoms (map token_atom needle) haystack \<noteq> None)"
    using assms by (simp add: matchesSearch_def Let_def wildcardToRegex_tokens)
  also have "(exec_atoms (map token_atom needle) haystack \<noteq> None)
      = (\<exists>i\<le>length haystack. \<exists>k\<le>length (drop i haystack).
           wildcard_match needle (take k (drop i haystack)))"
    unfolding exec_atoms_def exec_from_iff match_tokens ..
  also have "\<dots> = (\<exists>pre mid post. haystack = pre @ mid @ post \<and> wildcard_match needle mid)"
    by (rule contains_iff)
  finally show ?thesis .
qed

lemma report_examples:
  "matchesSearch h ''report_v2.pdf'' ''report_*.pdf'' = Inr True"
  "matchesSearch h ''report_v2.txt'' ''report_*.pdf'' = Inr False"
  by (simp_all add: model_defs)

text \<open>
  C7. For a needle with \<open>*\<close> or \<open>?\<close> that starts with neither \<open>/\<close> nor \<open>^\<close>: the pattern
  that is compiled is the needle with every syntax character other than \<open>*\<close> and \<open>?\<close>
  escaped, \<open>*\<close> turned into \<open>.*\<close> and \<open>?\<close> into \<open>.\<close>; it always compiles; and
  \<open>matchesSearch\<close> is true exactly when some piece of the haystack, anywhere in it, matches
  the needle read as a wildcard, letters compared without case. So
  \<open>matchesSearch("report_v2.pdf", "report_*.pdf")\<close> is true and
  \<open>matchesSearch("report_v2.txt", "report_*.pdf")\<close> is false.
\<close>

theorem wildcard_mode:
  "replace_question (replace_star (escape_special needle)) = concat (map wildcard_token needle)
   \<and> wildcardToRegex h needle \<noteq> None
   \<and> (\<not> startsWith needle ''/'' \<and> \<not> startsWith needle ''^''
        \<and> (CHR ''*'' \<in> set needle \<or> CHR ''?'' \<in> set needle) \<longrightarrow>
      matchesSearch h haystack needle =
        Inr (\<exists>pre mid post. haystack = pre @ mid @ post \<and> wildcard_match needle mid))
   \<and> matchesSearch h ''report_v2.pdf'' ''report_*.pdf'' = Inr True
   \<and> matchesSearch h ''report_v2.txt'' ''report_*.pdf'' = Inr False"
  using translate_tokens [of needle] wildcardToRegex_tokens [of h needle]
    matchesSearch_wildcard_mode [of needle h haystack] report_examples [of h]
  by simp

theorem wildcard_mode_witness:
  "\<not> startsWith ''report_*.pdf'' ''/'' \<and> \<not> startsWith ''report_*.pdf'' ''^''
   \<and> CHR ''*'' \<in> set ''report_*.pdf''
   \<and> (\<exists>pre mid post. ''report_v2.pdf'' = pre @ mid @ post \<and> wildcard_match ''report_*.pdf'' mid)
   \<and> \<not> (\<exists>pre mid post. ''report_v2.txt'' = pre @ mid @ post \<and> wildcard_match ''report_*.pdf'' mid)"
proof -
  define A where "A \<longleftrightarrow>
    (\<exists>pre mid post. ''report_v2.pdf'' = pre @ mid @ post \<and> wildcard_match ''report_*.pdf'' mid)"
  define B where "B \<longleftrightarrow>
    (\<exists>pre mid post. ''report_v2.txt'' = pre @ mid @ post \<and> wildcard_match ''report_*.pdf'' mid)"
  have a: "\<not> startsWith ''report_*.pdf'' ''/''" "\<not> startsWith ''report_*.pdf'' ''^''"
    "CHR ''*'' \<in> set ''report_*.pdf''"
    by (simp_all add: startsWith_def)
  from wildcard_mode [of "''report_*.pdf''" plain_host "''report_v2.pdf''"] a
  have "matchesSearch plain_host ''report_v2.pdf'' ''report_*.pdf'' = Inr A"
    and "matchesSearch plain_host ''report_v2.pdf'' ''report_*.pdf'' = Inr True"
    unfolding A_def by blast+
  then have A by simp
  moreover
  from wildcard_mode [of "''report_*.pdf''" plain_host "''report_v2.txt''"] a
  have "matchesSearch plain_host ''report_v2.txt'' ''report_*.pdf'' = Inr B"
    and "matchesSearch plain_host ''report_v2.txt'' ''report_*.pdf'' = Inr False"
    unfolding B_def by blast+
  then have "\<not> B" by simp
  ultimately show ?thesis using a unfolding A_def B_def by blast
qed

section \<open>Ordering: proofs\<close>

lemma insert_cmp_insort: "insert_cmp (\<lambda>a b. f a - f b) x ys = insort_key f x ys" for f :: "'a \<Rightarrow> int"
  by (induction ys) simp_all

lemma js_sort_asc: "js_sort (\<lambda>a b. f a - f b) xs = sort_key f xs" for f :: "'a \<Rightarrow> int"
  by (simp add: js_sort_def sort_key_def insert_cmp_insort [abs_def])

lemma insert_cmp_insort_desc:
  "insert_cmp (\<lambda>a b. f b - f a) x ys = insort_key (\<lambda>a. - f a) x ys" for f :: "'a \<Rightarrow> int"
  by (induction ys) simp_all

lemma js_sort_desc: "js_sort (\<lambda>a b. f b - f a) xs = sort_key (\<lambda>a. - f a) xs" for f :: "'a \<Rightarrow> int"
  by (simp add: js_sort_def sort_key_def insert_cmp_insort_desc [abs_def])

lemma sorted_asc: "sorted (map f (js_sort (\<lambda>a b. f a - f b) xs))" for f :: "'a \<Rightarrow> int"
  by (simp add: js_sort_asc)

lemma sorted_desc: "sorted (rev (map f (js_sort (\<lambda>a b. f b - f a) xs)))" for f :: "'a \<Rightarrow> int"
proof -
  have "sorted (map (\<lambda>a. - f a) (sort_key (\<lambda>a. - f a) xs))" by simp
  then have "sorted_wrt (\<lambda>a b. f b \<le> f a) (sort_key (\<lambda>a. - f a) xs)"
    by (simp add: sorted_wrt_map)
  then show ?thesis
    by (simp add: js_sort_desc sorted_wrt_rev sorted_wrt_map)
qed

lemma stable_asc:
  "filter (\<lambda>d. f d = k) (js_sort (\<lambda>a b. f a - f b) xs) = filter (\<lambda>d. f d = k) xs" for f :: "'a \<Rightarrow> int"
  by (simp add: js_sort_asc sort_key_stable)

lemma stable_desc:
  "filter (\<lambda>d. f d = k) (js_sort (\<lambda>a b. f b - f a) xs) = filter (\<lambda>d. f d = k) xs" for f :: "'a \<Rightarrow> int"
proof -
  have "filter (\<lambda>d. - f d = - k) (sort_key (\<lambda>a. - f a) xs) = filter (\<lambda>d. - f d = - k) xs"
    by (rule sort_key_stable)
  then show ?thesis by (simp add: js_sort_desc)
qed

lemma sorted_insert_cmp:
  assumes total: "\<And>a b. cmp a b \<le> 0 \<or> cmp b a \<le> 0"
    and trans: "\<And>a b c. cmp a b \<le> 0 \<Longrightarrow> cmp b c \<le> 0 \<Longrightarrow> cmp a c \<le> 0"
    and "sorted_wrt (\<lambda>a b. cmp a b \<le> 0) ys"
  shows "sorted_wrt (\<lambda>a b. cmp a b \<le> 0) (insert_cmp cmp x ys)"
  using assms(3)
proof (induction ys)
  case Nil
  show ?case by simp
next
  case (Cons y ys)
  show ?case
  proof (cases "cmp x y \<le> 0")
    case True
    with Cons.prems trans show ?thesis by auto
  next
    case False
    with total [of x y] have "cmp y x \<le> 0" by simp
    with False Cons show ?thesis by (auto simp: set_insert_cmp)
  qed
qed

lemma sorted_js_sort:
  assumes "\<And>a b. cmp a b \<le> 0 \<or> cmp b a \<le> 0"
    and "\<And>a b c. cmp a b \<le> 0 \<Longrightarrow> cmp b c \<le> 0 \<Longrightarrow> cmp a c \<le> 0"
  shows "sorted_wrt (\<lambda>a b. cmp a b \<le> 0) (js_sort cmp xs)"
  unfolding js_sort_def
  by (induction xs) (simp_all add: sorted_insert_cmp [OF assms])

lemma filterDownloads_subseq:
  "filterDownloads h ds opts c = Inr (kept, c1) \<Longrightarrow> subseq kept ds"
proof (induction ds arbitrary: kept c c1)
  case Nil
  then show ?case by simp
next
  case (Cons x xs)
  from Cons.prems obtain b c2 kept' where "filterDownloads h xs opts c2 = Inr (kept', c1)"
    and "kept = (if b then x # kept' else kept')"
    by (auto split: sum.splits)
  with Cons.IH [of c2 kept' c1] show ?case by auto
qed

lemma filter_folders_subseq:
  "filter_folders f xs c = Some (kept, c1) \<Longrightarrow> subseq kept xs"
proof (induction xs arbitrary: kept c c1)
  case Nil
  then show ?case by simp
next
  case (Cons x xs)
  from Cons.prems obtain b c2 kept' where "filter_folders f xs c2 = Some (kept', c1)"
    and "kept = (if b then x # kept' else kept')"
    by (auto split: option.splits)
  with Cons.IH [of c2 kept' c1] show ?case by auto
qed

lemma scenario_root:
  "displayDownloads h ((loaded scenario)\<lparr>activeFileTypes := {}, sortBy := ''name-asc''\<rparr>)
   = Inr (Listing \<lparr>allItems = [FolderItem ''bin'', FolderItem ''docs''], totalItems = 2, pages = 1,
                   shown = [FolderItem ''bin'', FolderItem ''docs'']\<rparr>,
          fileTypeCache (loaded scenario))"
  by (simp add: scenario_def model_defs totalPages_div)

lemma scenario_docs:
  "displayDownloads h ((loaded scenario)\<lparr>activeFileTypes := {}, sortBy := ''size-desc'', currentPath := [''docs'']\<rparr>)
   = Inr (Listing \<lparr>allItems = [FileItem (blob ''docs/guide.pdf'' 1000), FileItem (blob ''docs/readme.txt'' 500)],
                   totalItems = 2, pages = 1,
                   shown = [FileItem (blob ''docs/guide.pdf'' 1000), FileItem (blob ''docs/readme.txt'' 500)]\<rparr>,
          fileTypeCache (loaded scenario))"
  by (simp add: scenario_def model_defs totalPages_div)

lemma displayDownloads_listing:
  assumes "displayDownloads h st = Inr (Listing r, c)"
  shows "\<exists>node fs kept. folderTree st (join_slash (currentPath st)) = Some node
           \<and> subseq kept (files node) \<and> subseq fs (folders node)
           \<and> allItems r = map FolderItem (sort fs) @ map FileItem (sortFiles h (sortBy st) kept)"
proof (cases "toLowerCase (searchInput st) \<noteq> []")
  case True
  with assms show ?thesis
    by (auto simp: displayDownloads_def Let_def split: sum.splits)
next
  case False
  show ?thesis
  proof (cases "folderTree st (join_slash (currentPath st))")
    case None
    with False assms show ?thesis by (auto simp: displayDownloads_def Let_def)
  next
    case (Some node)
    with False assms obtain kept c1 fs c2 where
      f: "filterDownloads h (files node)
            \<lparr>searchTerm = [], fileTypes = activeFileTypes st, excludeZeroByte = True\<rparr>
            (fileTypeCache st) = Inr (kept, c1)"
      and g: "filter_folders (folderHasMatchingFiles (folderTree st) (activeFileTypes st)
                 (join_slash (currentPath st))) (folders node) c1 = Some (fs, c2)"
      and r: "r = render_items (map FolderItem (sort fs) @ map FileItem (sortFiles h (sortBy st) kept))
                             (currentPage st)"
      by (auto simp: displayDownloads_def Let_def split: sum.splits option.splits)
    from f have "subseq kept (files node)" by (rule filterDownloads_subseq)
    moreover from g have "subseq fs (folders node)" by (rule filter_folders_subseq)
    moreover have "allItems r = map FolderItem (sort fs) @ map FileItem (sortFiles h (sortBy st) kept)"
      by (simp add: r render_items_def)
    ultimately show ?thesis using Some by blast
  qed
qed

lemma js_sort_cong:
  assumes "\<And>a b. a \<in> set xs \<Longrightarrow> b \<in> set xs \<Longrightarrow> cmp a b = cmp' a b"
  shows "js_sort cmp xs = js_sort cmp' xs"
  using assms
proof (induction xs)
  case Nil
  show ?case by (simp add: js_sort_def)
next
  case (Cons x xs)
  have ih: "js_sort cmp xs = js_sort cmp' xs"
    by (rule Cons.IH) (simp add: Cons.prems)
  have "insert_cmp cmp x ys = insert_cmp cmp' x ys" if "set ys \<subseteq> set xs" for ys
    using that by (induction ys) (simp_all add: Cons.prems)
  then have "insert_cmp cmp x (js_sort cmp' xs) = insert_cmp cmp' x (js_sort cmp' xs)"
    by (simp add: set_js_sort)
  with ih show ?case by (simp add: js_sort_def)
qed

text \<open>The instant of a record whose date parses.\<close>

lemma date_minus_parsable:
  assumes "LastModified a \<noteq> None" and "LastModified b \<noteq> None"
  shows "comparator_value (date_minus a b) = the (LastModified a) - the (LastModified b)"
  using assms by (auto simp: date_minus_def comparator_value_def)

lemma sortFiles_date_desc:
  assumes "\<forall>d \<in> set xs. LastModified d \<noteq> None"
  shows "sortFiles h ''date-desc'' xs
         = js_sort (\<lambda>a b. the (LastModified b) - the (LastModified a)) xs"
  unfolding sortFiles_def using assms
  by (simp add: date_minus_parsable cong: js_sort_cong)

lemma sortFiles_date_asc:
  assumes "\<forall>d \<in> set xs. LastModified d \<noteq> None"
  shows "sortFiles h ''date-asc'' xs
         = js_sort (\<lambda>a b. the (LastModified a) - the (LastModified b)) xs"
  unfolding sortFiles_def using assms
  by (simp add: date_minus_parsable cong: js_sort_cong)

lemma sorted_by_instant:
  assumes "\<forall>d \<in> set ys. LastModified d \<noteq> None"
    and "sorted_wrt (\<lambda>a b. R (the (LastModified a)) (the (LastModified b))) ys"
  shows "sorted_wrt (\<lambda>a b. \<exists>x y. LastModified a = Some x \<and> LastModified b = Some y \<and> R x y) ys"
  using assms(2)
proof (rule sorted_wrt_mono_rel [rotated])
  fix a b assume "a \<in> set ys" "b \<in> set ys" "R (the (LastModified a)) (the (LastModified b))"
  moreover from this assms(1) obtain x y where "LastModified a = Some x" "LastModified b = Some y"
    by (meson not_None_eq)
  ultimately show "\<exists>x y. LastModified a = Some x \<and> LastModified b = Some y \<and> R x y"
    by simp
qed

lemma filter_by_instant:
  assumes "\<forall>d \<in> set ys. LastModified d \<noteq> None"
  shows "filter (\<lambda>d. LastModified d = Some t) ys = filter (\<lambda>d. the (LastModified d) = t) ys"
  using assms by (intro filter_cong) auto

lemma date_order:
  assumes p: "\<forall>d \<in> set xs. LastModified d \<noteq> None"
  shows "sorted_wrt (\<lambda>a b. \<exists>x y. LastModified a = Some x \<and> LastModified b = Some y \<and> y \<le> x)
           (sortFiles h ''date-desc'' xs)"
    and "filter (\<lambda>d. LastModified d = Some t) (sortFiles h ''date-desc'' xs)
         = filter (\<lambda>d. LastModified d = Some t) xs"
    and "sorted_wrt (\<lambda>a b. \<exists>x y. LastModified a = Some x \<and> LastModified b = Some y \<and> x \<le> y)
           (sortFiles h ''date-asc'' xs)"
    and "filter (\<lambda>d. LastModified d = Some t) (sortFiles h ''date-asc'' xs)
         = filter (\<lambda>d. LastModified d = Some t) xs"
proof -
  let ?f = "\<lambda>d. the (LastModified d)"
  let ?desc = "js_sort (\<lambda>a b. ?f b - ?f a) xs" and ?asc = "js_sort (\<lambda>a b. ?f a - ?f b) xs"
  have pd: "\<forall>d \<in> set ?desc. LastModified d \<noteq> None" and pa: "\<forall>d \<in> set ?asc. LastModified d \<noteq> None"
    using p by (simp_all add: set_js_sort)
  have "sorted (rev (map ?f ?desc))" by (rule sorted_desc)
  then have "sorted_wrt (\<lambda>a b. ?f b \<le> ?f a) ?desc"
    by (simp add: sorted_wrt_rev sorted_wrt_map)
  from sorted_by_instant [OF pd, of "\<lambda>x y. y \<le> x", OF this]
  show "sorted_wrt (\<lambda>a b. \<exists>x y. LastModified a = Some x \<and> LastModified b = Some y \<and> y \<le> x)
           (sortFiles h ''date-desc'' xs)"
    by (simp add: sortFiles_date_desc [OF p])
  have "sorted (map ?f ?asc)" by (rule sorted_asc)
  then have "sorted_wrt (\<lambda>a b. ?f a \<le> ?f b) ?asc"
    by (simp add: sorted_wrt_map)
  from sorted_by_instant [OF pa, of "\<lambda>x y. x \<le> y", OF this]
  show "sorted_wrt (\<lambda>a b. \<exists>x y. LastModified a = Some x \<and> LastModified b = Some y \<and> x \<le> y)
           (sortFiles h ''date-asc'' xs)"
    by (simp add: sortFiles_date_asc [OF p])
  show "filter (\<lambda>d. LastModified d = Some t) (sortFiles h ''date-desc'' xs)
         = filter (\<lambda>d. LastModified d = Some t) xs"
    unfolding sortFiles_date_desc [OF p] filter_by_instant [OF pd] filter_by_instant [OF p]
    by (rule stable_desc)
  show "filter (\<lambda>d. LastModified d = Some t) (sortFiles h ''date-asc'' xs)
         = filter (\<lambda>d. LastModified d = Some t) xs"
    unfolding sortFiles_date_asc [OF p] filter_by_instant [OF pa] filter_by_instant [OF p]
    by (rule stable_asc)
qed

text \<open>
  A date that does not parse makes the comparator answer \<open>NaN\<close> against every other record,
  and the records around it are then not put in the order of their dates: under
  \<open>date-desc\<close> the list of the instants 1, invalid, 2 stays as it is.
\<close>

lemma sortFiles_invalid_date:
  "sortFiles h ''date-desc''
     [(blob ''a.txt'' 1)\<lparr>LastModified := Some 1\<rparr>, (blob ''b.txt'' 1)\<lparr>LastModified := None\<rparr>,
      (blob ''c.txt'' 1)\<lparr>LastModified := Some 2\<rparr>]
   = [(blob ''a.txt'' 1)\<lparr>LastModified := Some 1\<rparr>, (blob ''b.txt'' 1)\<lparr>LastModified := None\<rparr>,
      (blob ''c.txt'' 1)\<lparr>LastModified := Some 2\<rparr>]"
  by (simp add: sortFiles_def js_sort_def date_minus_def comparator_value_def blob_def)

text \<open>
  C4. A browse-mode listing is the surviving folders, in ascending order of their names as
  strings of code units, followed by the surviving files of the node as \<open>sortFiles\<close> orders
  them. For the keys \<open>date-desc\<close> and \<open>date-asc\<close>, on records whose dates all parse, and
  for the keys \<open>size-desc\<close> and \<open>size-asc\<close>, the files are in descending or ascending
  order of the key and files with equal keys keep the order in which they were met; for
  \<open>name-asc\<close> they are in the order of the host's \<open>localeCompare\<close> on the lower-case file
  names, when that is a total preorder. In the scenario of three records, the root with no
  type filter and \<open>name-asc\<close> lists the folders \<open>bin\<close> and \<open>docs\<close> and no file.
\<close>

theorem browse_order:
  "(displayDownloads h st = Inr (Listing r, c) \<longrightarrow>
      (\<exists>node fs kept. folderTree st (join_slash (currentPath st)) = Some node
         \<and> subseq kept (files node) \<and> set fs \<subseteq> set (folders node) \<and> sorted fs
         \<and> allItems r = map FolderItem fs @ map FileItem (sortFiles h (sortBy st) kept)))
   \<and> ((\<forall>d \<in> set xs. LastModified d \<noteq> None) \<longrightarrow>
        sorted_wrt (\<lambda>a b. \<exists>x y. LastModified a = Some x \<and> LastModified b = Some y \<and> y \<le> x)
          (sortFiles h ''date-desc'' xs)
        \<and> filter (\<lambda>d. LastModified d = Some t) (sortFiles h ''date-desc'' xs)
            = filter (\<lambda>d. LastModified d = Some t) xs
        \<and> sorted_wrt (\<lambda>a b. \<exists>x y. LastModified a = Some x \<and> LastModified b = Some y \<and> x \<le> y)
            (sortFiles h ''date-asc'' xs)
        \<and> filter (\<lambda>d. LastModified d = Some t) (sortFiles h ''date-asc'' xs)
            = filter (\<lambda>d. LastModified d = Some t) xs)
   \<and> sorted (rev (map Length (sortFiles h ''size-desc'' xs)))
   \<and> filter (\<lambda>d. Length d = n) (sortFiles h ''size-desc'' xs) = filter (\<lambda>d. Length d = n) xs
   \<and> sorted (map Length (sortFiles h ''size-asc'' xs))
   \<and> filter (\<lambda>d. Length d = n) (sortFiles h ''size-asc'' xs) = filter (\<lambda>d. Length d = n) xs
   \<and> ((\<forall>a b. host_localeCompare h a b \<le> 0 \<or> host_localeCompare h b a \<le> 0)
        \<and> (\<forall>a b c. host_localeCompare h a b \<le> 0 \<and> host_localeCompare h b c \<le> 0
                    \<longrightarrow> host_localeCompare h a c \<le> 0) \<longrightarrow>
       sorted_wrt (\<lambda>a b. host_localeCompare h (file_name a) (file_name b) \<le> 0)
         (sortFiles h ''name-asc'' xs))
   \<and> displayDownloads h ((loaded scenario)\<lparr>activeFileTypes := {}, sortBy := ''name-asc''\<rparr>)
       = Inr (Listing \<lparr>allItems = [FolderItem ''bin'', FolderItem ''docs''], totalItems = 2, pages = 1,
                       shown = [FolderItem ''bin'', FolderItem ''docs'']\<rparr>,
              fileTypeCache (loaded scenario))"
proof -
  have a: "displayDownloads h st = Inr (Listing r, c) \<longrightarrow>
      (\<exists>node fs kept. folderTree st (join_slash (currentPath st)) = Some node
         \<and> subseq kept (files node) \<and> set fs \<subseteq> set (folders node) \<and> sorted fs
         \<and> allItems r = map FolderItem fs @ map FileItem (sortFiles h (sortBy st) kept))"
  proof
    assume "displayDownloads h st = Inr (Listing r, c)"
    from displayDownloads_listing [OF this] obtain node fs kept where
      n: "folderTree st (join_slash (currentPath st)) = Some node"
      and k: "subseq kept (files node)" and f: "subseq fs (folders node)"
      and i: "allItems r = map FolderItem (sort fs) @ map FileItem (sortFiles h (sortBy st) kept)"
      by blast
    from f have "set (sort fs) \<subseteq> set (folders node)"
      by (auto dest: list_emb_set)
    moreover have "sorted (sort fs)" by simp
    ultimately show "\<exists>node fs kept. folderTree st (join_slash (currentPath st)) = Some node
         \<and> subseq kept (files node) \<and> set fs \<subseteq> set (folders node) \<and> sorted fs
         \<and> allItems r = map FolderItem fs @ map FileItem (sortFiles h (sortBy st) kept)"
      using n k i by blast
  qed
  have b: "(\<forall>d \<in> set xs. LastModified d \<noteq> None) \<longrightarrow>
        sorted_wrt (\<lambda>a b. \<exists>x y. LastModified a = Some x \<and> LastModified b = Some y \<and> y \<le> x)
          (sortFiles h ''date-desc'' xs)
        \<and> filter (\<lambda>d. LastModified d = Some t) (sortFiles h ''date-desc'' xs)
            = filter (\<lambda>d. LastModified d = Some t) xs
        \<and> sorted_wrt (\<lambda>a b. \<exists>x y. LastModified a = Some x \<and> LastModified b = Some y \<and> x \<le> y)
            (sortFiles h ''date-asc'' xs)
        \<and> filter (\<lambda>d. LastModified d = Some t) (sortFiles h ''date-asc'' xs)
            = filter (\<lambda>d. LastModified d = Some t) xs"
  proof
    assume p: "\<forall>d \<in> set xs. LastModified d \<noteq> None"
    show "sorted_wrt (\<lambda>a b. \<exists>x y. LastModified a = Some x \<and> LastModified b = Some y \<and> y \<le> x)
          (sortFiles h ''date-desc'' xs)
        \<and> filter (\<lambda>d. LastModified d = Some t) (sortFiles h ''date-desc'' xs)
            = filter (\<lambda>d. LastModified d = Some t) xs
        \<and> sorted_wrt (\<lambda>a b. \<exists>x y. LastModified a = Some x \<and> LastModified b = Some y \<and> x \<le> y)
            (sortFiles h ''date-asc'' xs)
        \<and> filter (\<lambda>d. LastModified d = Some t) (sortFiles h ''date-asc'' xs)
            = filter (\<lambda>d. LastModified d = Some t) xs"
      by (intro conjI) (rule date_order [OF p])+
  qed
  have d: "sorted (rev (map Length (sortFiles h ''size-desc'' xs)))"
    "filter (\<lambda>d. Length d = n) (sortFiles h ''size-desc'' xs) = filter (\<lambda>d. Length d = n) xs"
    by (simp_all add: sortFiles_def sorted_desc stable_desc)
  have e: "sorted (map Length (sortFiles h ''size-asc'' xs))"
    "filter (\<lambda>d. Length d = n) (sortFiles h ''size-asc'' xs) = filter (\<lambda>d. Length d = n) xs"
    by (simp_all add: sortFiles_def sorted_asc stable_asc)
  have f: "(\<forall>a b. host_localeCompare h a b \<le> 0 \<or> host_localeCompare h b a \<le> 0)
        \<and> (\<forall>a b c. host_localeCompare h a b \<le> 0 \<and> host_localeCompare h b c \<le> 0
                    \<longrightarrow> host_localeCompare h a c \<le> 0) \<longrightarrow>
       sorted_wrt (\<lambda>a b. host_localeCompare h (file_name a) (file_name b) \<le> 0)
         (sortFiles h ''name-asc'' xs)"
  proof
    assume h: "(\<forall>a b. host_localeCompare h a b \<le> 0 \<or> host_localeCompare h b a \<le> 0)
        \<and> (\<forall>a b c. host_localeCompare h a b \<le> 0 \<and> host_localeCompare h b c \<le> 0
                    \<longrightarrow> host_localeCompare h a c \<le> 0)"
    have "sorted_wrt (\<lambda>a b. host_localeCompare h (file_name a) (file_name b) \<le> 0)
            (js_sort (\<lambda>a b. host_localeCompare h (file_name a) (file_name b)) xs)"
      by (rule sorted_js_sort) (use h in blast)+
    then show "sorted_wrt (\<lambda>a b. host_localeCompare h (file_name a) (file_name b) \<le> 0)
         (sortFiles h ''name-asc'' xs)"
      by (simp add: sortFiles_def)
  qed
  show ?thesis using a b d e f scenario_root [of h] by (intro conjI)
qed

theorem browse_order_witness:
  "displayDownloads plain_host ((loaded scenario)\<lparr>activeFileTypes := {}, sortBy := ''name-asc''\<rparr>)
     = Inr (Listing \<lparr>allItems = [FolderItem ''bin'', FolderItem ''docs''], totalItems = 2, pages = 1,
                     shown = [FolderItem ''bin'', FolderItem ''docs'']\<rparr>,
            fileTypeCache (loaded scenario))
   \<and> (\<exists>fs kept. set fs \<subseteq> {''docs'', ''bin''} \<and> sorted fs \<and> subseq kept []
        \<and> [FolderItem ''bin'', FolderItem ''docs'']
            = map FolderItem fs @ map FileItem (sortFiles plain_host ''name-asc'' kept))
   \<and> LastModified ((blob ''a.txt'' 1)\<lparr>LastModified := Some 1\<rparr>) \<noteq> None
   \<and> LastModified ((blob ''b.txt'' 1)\<lparr>LastModified := Some 3\<rparr>) \<noteq> None
   \<and> LastModified ((blob ''c.txt'' 1)\<lparr>LastModified := Some 1\<rparr>) \<noteq> None
   \<and> sortFiles plain_host ''date-desc''
        [(blob ''a.txt'' 1)\<lparr>LastModified := Some 1\<rparr>, (blob ''b.txt'' 1)\<lparr>LastModified := Some 3\<rparr>,
         (blob ''c.txt'' 1)\<lparr>LastModified := Some 1\<rparr>]
       = [(blob ''b.txt'' 1)\<lparr>LastModified := Some 3\<rparr>, (blob ''a.txt'' 1)\<lparr>LastModified := Some 1\<rparr>,
          (blob ''c.txt'' 1)\<lparr>LastModified := Some 1\<rparr>]
   \<and> sorted_wrt (\<lambda>a b. \<exists>x y. LastModified a = Some x \<and> LastModified b = Some y \<and> y \<le> x)
        (sortFiles plain_host ''date-desc''
          [(blob ''a.txt'' 1)\<lparr>LastModified := Some 1\<rparr>, (blob ''b.txt'' 1)\<lparr>LastModified := Some 3\<rparr>,
           (blob ''c.txt'' 1)\<lparr>LastModified := Some 1\<rparr>])
   \<and> filter (\<lambda>d. LastModified d = Some 1) (sortFiles plain_host ''date-desc''
          [(blob ''a.txt'' 1)\<lparr>LastModified := Some 1\<rparr>, (blob ''b.txt'' 1)\<lparr>LastModified := Some 3\<rparr>,
           (blob ''c.txt'' 1)\<lparr>LastModified := Some 1\<rparr>])
       = [(blob ''a.txt'' 1)\<lparr>LastModified := Some 1\<rparr>, (blob ''c.txt'' 1)\<lparr>LastModified := Some 1\<rparr>]
   \<and> sorted_wrt (\<lambda>a b. host_localeCompare plain_host (file_name a) (file_name b) \<le> 0)
        (sortFiles plain_host ''name-asc'' scenario)"
proof -
  define S where "S = (loaded scenario)\<lparr>activeFileTypes := {}, sortBy := ''name-asc''\<rparr>"
  define R where "R = \<lparr>allItems = [FolderItem ''bin'', FolderItem ''docs''], totalItems = 2, pages = 1,
                     shown = [FolderItem ''bin'', FolderItem ''docs'']\<rparr>"
  define C where "C = fileTypeCache (loaded scenario)"
  define A where "A = (blob ''a.txt'' 1)\<lparr>LastModified := Some 1\<rparr>"
  define B where "B = (blob ''b.txt'' 1)\<lparr>LastModified := Some 3\<rparr>"
  define D where "D = (blob ''c.txt'' 1)\<lparr>LastModified := Some 1\<rparr>"
  have d: "displayDownloads plain_host S = Inr (Listing R, C)"
    unfolding S_def R_def C_def by (rule scenario_root)
  have le: "host_localeCompare plain_host a b \<le> 0 \<longleftrightarrow> a \<le> b" for a b
    by (auto simp: plain_host_def)
  have tot: "\<forall>a b. host_localeCompare plain_host a b \<le> 0 \<or> host_localeCompare plain_host b a \<le> 0"
    unfolding le by auto
  have tr: "\<forall>a b c. host_localeCompare plain_host a b \<le> 0 \<and> host_localeCompare plain_host b c \<le> 0
                \<longrightarrow> host_localeCompare plain_host a c \<le> 0"
    unfolding le by auto
  have pa: "LastModified A \<noteq> None" and pb: "LastModified B \<noteq> None" and pc: "LastModified D \<noteq> None"
    by (simp_all add: A_def B_def D_def)
  then have p: "\<forall>d \<in> set [A, B, D]. LastModified d \<noteq> None" by simp
  have ev: "sortFiles plain_host ''date-desc'' [A, B, D] = [B, A, D]"
    by (simp add: sortFiles_def js_sort_def date_minus_def comparator_value_def A_def B_def D_def)
  have key: "LastModified A = Some 1" "LastModified B = Some 3" "LastModified D = Some 1"
    by (simp_all add: A_def B_def D_def)
  note w = browse_order [of plain_host S R C "[A, B, D]" 1 0]
  note wa = w [THEN conjunct1, THEN mp, OF d]
  note wb = w [THEN conjunct2, THEN conjunct1, THEN mp, OF p]
  note wn = w [THEN conjunct2, THEN conjunct2, THEN conjunct2, THEN conjunct2, THEN conjunct2,
               THEN conjunct2, THEN conjunct1]
  from wa obtain node fs kept where
    n: "folderTree S (join_slash (currentPath S)) = Some node"
    and q: "subseq kept (files node)" "set fs \<subseteq> set (folders node)" "sorted fs"
      "allItems R = map FolderItem fs @ map FileItem (sortFiles plain_host (sortBy S) kept)"
    by blast
  have "folderTree S (join_slash (currentPath S)) = Some \<lparr>folders = [''docs'', ''bin''], files = []\<rparr>"
    unfolding S_def by (simp add: scenario_def model_defs)
  with n have node: "node = \<lparr>folders = [''docs'', ''bin''], files = []\<rparr>" by simp
  have sb: "sortBy S = ''name-asc''" unfolding S_def by simp
  from q have "set fs \<subseteq> {''docs'', ''bin''} \<and> sorted fs \<and> subseq kept []
        \<and> [FolderItem ''bin'', FolderItem ''docs'']
            = map FolderItem fs @ map FileItem (sortFiles plain_host ''name-asc'' kept)"
    unfolding node sb R_def by simp
  then have e: "\<exists>fs kept. set fs \<subseteq> {''docs'', ''bin''} \<and> sorted fs \<and> subseq kept []
        \<and> [FolderItem ''bin'', FolderItem ''docs'']
            = map FolderItem fs @ map FileItem (sortFiles plain_host ''name-asc'' kept)"
    by blast
  from wb have so: "sorted_wrt (\<lambda>a b. \<exists>x y. LastModified a = Some x \<and> LastModified b = Some y \<and> y \<le> x)
        (sortFiles plain_host ''date-desc'' [A, B, D])"
    by (rule conjunct1)
  from wb have "filter (\<lambda>d. LastModified d = Some 1) (sortFiles plain_host ''date-desc'' [A, B, D])
      = filter (\<lambda>d. LastModified d = Some 1) [A, B, D]"
    by (rule conjunct2 [THEN conjunct1])
  then have st: "filter (\<lambda>d. LastModified d = Some 1) (sortFiles plain_host ''date-desc'' [A, B, D])
      = [A, D]"
    by (simp add: key)
  from browse_order [of plain_host S R C scenario 1 0] tot tr
  have s: "sorted_wrt (\<lambda>a b. host_localeCompare plain_host (file_name a) (file_name b) \<le> 0)
        (sortFiles plain_host ''name-asc'' scenario)"
    by blast
  show ?thesis
    using d [unfolded S_def R_def C_def] e pa [unfolded A_def] pb [unfolded B_def] pc [unfolded D_def]
      ev [unfolded A_def B_def D_def] so [unfolded A_def B_def D_def] st [unfolded A_def B_def D_def] s
    by (intro conjI)
qed

section \<open>The folder tree: proofs\<close>

subsection \<open>split and join\<close>

lemma split_slash_nonempty [simp]: "split_slash s \<noteq> []"
  by (induction s) (auto split: list.splits)

lemma length_split_slash [simp]: "0 < length (split_slash s)"
  by (simp add: length_greater_0_conv)

lemma split_slash_append: "split_slash (a @ CHR ''/'' # b) = split_slash a @ split_slash b"
  by (induction a) (auto split: list.splits)

lemma split_slash_no_slash: "\<forall>w \<in> set (split_slash s). CHR ''/'' \<notin> set w"
  by (induction s) (auto split: list.splits)

lemma join_slash_append:
  "xs \<noteq> [] \<Longrightarrow> ys \<noteq> [] \<Longrightarrow> join_slash (xs @ ys) = join_slash xs @ CHR ''/'' # join_slash ys"
proof (induction xs rule: join_slash.induct)
  case 1
  then show ?case by simp
next
  case (2 w)
  then show ?case by (cases ys) simp_all
next
  case (3 w v ws)
  then show ?case by simp
qed

lemma join_split_slash [simp]: "join_slash (split_slash s) = s"
proof (induction s)
  case Nil
  show ?case by simp
next
  case (Cons c cs)
  show ?case
  proof (cases "split_slash cs")
    case Nil
    then show ?thesis by simp
  next
    case (Cons w ws)
    with Cons.IH show ?thesis by (cases ws) auto
  qed
qed

lemma split_no_slash: "CHR ''/'' \<notin> set s \<Longrightarrow> split_slash s = [s]"
  by (induction s) auto

lemma split_join_slash:
  "xs \<noteq> [] \<Longrightarrow> \<forall>w \<in> set xs. CHR ''/'' \<notin> set w \<Longrightarrow> split_slash (join_slash xs) = xs"
proof (induction xs rule: join_slash.induct)
  case 1
  then show ?case by simp
next
  case (2 w)
  then show ?case by (simp add: split_no_slash)
next
  case (3 w v ws)
  then show ?case by (simp add: split_slash_append split_no_slash)
qed

lemma boundary_prefix_iff:
  "prefix (p @ ''/'') s \<longleftrightarrow>
   (\<exists>i. 0 < i \<and> i < length (split_slash s) \<and> p = join_slash (take i (split_slash s)))"
proof
  assume "prefix (p @ ''/'') s"
  then obtain rest where s: "s = p @ CHR ''/'' # rest" by (auto simp: prefix_def)
  then have sp: "split_slash s = split_slash p @ split_slash rest" by (simp add: split_slash_append)
  let ?i = "length (split_slash p)"
  have "0 < ?i" by simp
  moreover have "?i < length (split_slash s)" by (simp add: sp)
  moreover have "p = join_slash (take ?i (split_slash s))" by (simp add: sp)
  ultimately show "\<exists>i. 0 < i \<and> i < length (split_slash s) \<and> p = join_slash (take i (split_slash s))"
    by blast
next
  assume "\<exists>i. 0 < i \<and> i < length (split_slash s) \<and> p = join_slash (take i (split_slash s))"
  then obtain i where i: "0 < i" "i < length (split_slash s)" "p = join_slash (take i (split_slash s))"
    by blast
  let ?xs = "take i (split_slash s)" and ?ys = "drop i (split_slash s)"
  have "?xs \<noteq> []" "?ys \<noteq> []" using i by auto
  then have "join_slash (?xs @ ?ys) = join_slash ?xs @ CHR ''/'' # join_slash ?ys"
    by (rule join_slash_append)
  then have "s = p @ CHR ''/'' # join_slash ?ys" using i(3) by simp
  then show "prefix (p @ ''/'') s" by (auto simp: prefix_def)
qed


subsection \<open>The steps of the construction\<close>

lemma ensure_node_props:
  "dom (ensure_node T p) = insert p (dom T)"
  "files_at (ensure_node T p) q = files_at T q"
  "folders_at (ensure_node T p) q = folders_at T q"
  by (auto simp: ensure_node_def files_at_def folders_at_def empty_node_def split: option.splits)

lemma push_file_props:
  "dom (push_file T p d) = dom T"
  "files_at (push_file T p d) q = (if q = p \<and> p \<in> dom T then files_at T p @ [d] else files_at T q)"
  "folders_at (push_file T p d) q = folders_at T q"
  by (auto simp: push_file_def files_at_def folders_at_def split: option.splits)

lemma add_folder_props:
  "dom (add_folder T p f) = dom T"
  "files_at (add_folder T p f) q = files_at T q"
  "folders_at (add_folder T p f) q =
     (if q = p \<and> p \<in> dom T then insert f (folders_at T p) else folders_at T q)"
  by (auto simp: add_folder_def files_at_def folders_at_def set_add_def split: option.splits)

lemma hierarchy_step_props:
  "dom (hierarchy_step parts i T) =
     insert (join_slash (take (Suc i) parts)) (insert (join_slash (take i parts)) (dom T))"
  "files_at (hierarchy_step parts i T) q = files_at T q"
  "folders_at (hierarchy_step parts i T) q =
     (if q = join_slash (take i parts) then insert (parts ! i) (folders_at T q) else folders_at T q)"
  by (auto simp: hierarchy_step_def Let_def ensure_node_props add_folder_props)

lemma hierarchy_fold_dom:
  "dom (fold (hierarchy_step parts) [0..<n] T) =
     dom T \<union> (if n = 0 then {} else {join_slash (take i parts) | i. i \<le> n})"
proof (induction n)
  case 0
  show ?case by simp
next
  case (Suc n)
  have "{join_slash (take i parts) | i. i \<le> Suc n}
      = insert (join_slash (take (Suc n) parts)) {join_slash (take i parts) | i. i \<le> n}"
    by (auto simp: le_Suc_eq)
  moreover have "n = 0 \<Longrightarrow> {join_slash (take i parts) | i. i \<le> n} = {join_slash (take n parts)}"
    by auto
  moreover have "join_slash (take n parts) \<in> {join_slash (take i parts) | i. i \<le> n}"
    by blast
  ultimately show ?case
    by (cases "n = 0") (auto simp: hierarchy_step_props Suc.IH)
qed

lemma hierarchy_fold_files:
  "files_at (fold (hierarchy_step parts) [0..<n] T) q = files_at T q"
  by (induction n) (simp_all add: hierarchy_step_props)

lemma hierarchy_fold_folders:
  "folders_at (fold (hierarchy_step parts) [0..<n] T) q =
     folders_at T q \<union> {parts ! i | i. i < n \<and> q = join_slash (take i parts)}"
proof (induction n)
  case 0
  show ?case by simp
next
  case (Suc n)
  have "{parts ! i | i. i < Suc n \<and> q = join_slash (take i parts)}
      = (if q = join_slash (take n parts) then {parts ! n} else {})
        \<union> {parts ! i | i. i < n \<and> q = join_slash (take i parts)}"
    by (auto simp: less_Suc_eq)
  moreover have "folders_at (fold (hierarchy_step parts) [0..<Suc n] T) q
      = (if q = join_slash (take n parts)
         then insert (parts ! n) (folders_at (fold (hierarchy_step parts) [0..<n] T) q)
         else folders_at (fold (hierarchy_step parts) [0..<n] T) q)"
    by (simp add: hierarchy_step_props)
  ultimately show ?case unfolding Suc.IH by auto
qed

lemma add_to_tree_dom:
  "dom (add_to_tree d T) = dom T \<union> {chain d i | i. i < length (split_slash (Name d))}"
proof -
  let ?parts = "split_slash (Name d)"
  let ?n = "length ?parts - 1"
  have n: "length ?parts = Suc ?n" by simp
  have iff: "\<And>i. i < length ?parts \<longleftrightarrow> i \<le> ?n"
    by (metis n less_Suc_eq_le)
  have eq: "{chain d i | i. i < length ?parts} = {join_slash (take i ?parts) | i. i \<le> ?n}"
    unfolding chain_def iff ..
  have p: "join_slash (take ?n ?parts) \<in> {join_slash (take i ?parts) | i. i \<le> ?n}"
    by blast
  have z: "?n = 0 \<Longrightarrow> {join_slash (take i ?parts) | i. i \<le> ?n} = {join_slash (take ?n ?parts)}"
    by auto
  have "dom (add_to_tree d T)
      = insert (join_slash (take ?n ?parts)) (dom T)
        \<union> (if ?n = 0 then {} else {join_slash (take i ?parts) | i. i \<le> ?n})"
    by (simp add: add_to_tree_def Let_def hierarchy_fold_dom push_file_props ensure_node_props)
  also have "\<dots> = dom T \<union> {join_slash (take i ?parts) | i. i \<le> ?n}"
    using p z by (cases "?n = 0") auto
  finally show ?thesis by (simp only: eq)
qed

lemma add_to_tree_files:
  "files_at (add_to_tree d T) q = files_at T q @ (if parentPath d = q then [d] else [])"
  by (simp add: add_to_tree_def parentPath_def Let_def hierarchy_fold_files push_file_props
      ensure_node_props)

lemma add_to_tree_folders:
  "folders_at (add_to_tree d T) q =
     folders_at T q \<union> {split_slash (Name d) ! i | i. Suc i < length (split_slash (Name d)) \<and> q = chain d i}"
proof -
  let ?parts = "split_slash (Name d)"
  have "\<And>i. (i < length ?parts - 1) = (Suc i < length ?parts)"
    by auto
  then show ?thesis
    by (simp add: add_to_tree_def Let_def hierarchy_fold_folders push_file_props ensure_node_props
        chain_def)
qed

lemmas add_to_tree_props = add_to_tree_dom add_to_tree_files add_to_tree_folders

lemma fold_add_to_tree_dom:
  "dom (fold add_to_tree ds T) =
     dom T \<union> {chain d i | d i. d \<in> set ds \<and> i < length (split_slash (Name d))}"
proof (induction ds arbitrary: T)
  case Nil
  show ?case by simp
next
  case (Cons x xs)
  have "{chain d i | d i. d \<in> set (x # xs) \<and> i < length (split_slash (Name d))}
      = {chain x i | i. i < length (split_slash (Name x))}
        \<union> {chain d i | d i. d \<in> set xs \<and> i < length (split_slash (Name d))}"
    by auto
  then show ?case by (simp add: Cons.IH add_to_tree_dom Un_assoc)
qed

lemma fold_add_to_tree_files:
  "files_at (fold add_to_tree ds T) q = files_at T q @ filter (\<lambda>d. parentPath d = q) ds"
  by (induction ds arbitrary: T) (simp_all add: add_to_tree_files)

lemma fold_add_to_tree_folders:
  "folders_at (fold add_to_tree ds T) q =
     folders_at T q \<union> {split_slash (Name d) ! i | d i.
        d \<in> set ds \<and> Suc i < length (split_slash (Name d)) \<and> q = chain d i}"
proof (induction ds arbitrary: T)
  case Nil
  show ?case by simp
next
  case (Cons x xs)
  have "{split_slash (Name d) ! i | d i.
          d \<in> set (x # xs) \<and> Suc i < length (split_slash (Name d)) \<and> q = chain d i}
      = {split_slash (Name x) ! i | i. Suc i < length (split_slash (Name x)) \<and> q = chain x i}
        \<union> {split_slash (Name d) ! i | d i.
          d \<in> set xs \<and> Suc i < length (split_slash (Name d)) \<and> q = chain d i}"
    by auto
  then show ?case by (simp add: Cons.IH add_to_tree_folders Un_assoc)
qed

lemma fold_add_download:
  "fst (fold add_download ds (T, c)) = fold add_to_tree ds T"
proof (induction ds arbitrary: T c)
  case Nil
  show ?case by simp
next
  case (Cons x xs)
  have "add_download x (T, c) = (add_to_tree x T, snd (getFileTypeInfo c x))"
    by (simp add: add_download_def add_to_tree_def Let_def)
  then show ?case by (simp add: Cons.IH)
qed

lemma cache_ok_fold_add_download:
  "cache_ok c \<Longrightarrow> cache_ok (snd (fold add_download ds (T, c)))"
proof (induction ds arbitrary: T c)
  case Nil
  then show ?case by simp
next
  case (Cons x xs)
  have "add_download x (T, c) = (add_to_tree x T, snd (getFileTypeInfo c x))"
    by (simp add: add_download_def add_to_tree_def Let_def)
  moreover have "cache_ok (snd (getFileTypeInfo c x))"
    using Cons.prems by (simp add: getFileTypeInfo_classify)
  ultimately show ?case by (simp add: Cons.IH)
qed


subsection \<open>The tree of a record list\<close>

lemma buildFolderTree_fold:
  "fst (buildFolderTree ds) = fold add_to_tree ds [[] \<mapsto> empty_node]"
  by (simp add: buildFolderTree_def fold_add_download)

lemma chain_0 [simp]: "chain d 0 = []"
  by (simp add: chain_def)

lemma chain_parent: "chain d (length (split_slash (Name d)) - 1) = parentPath d"
  by (simp add: chain_def parentPath_def Let_def)

lemma chains_are_boundary_prefixes:
  "insert [] {chain d i | d i. d \<in> set ds \<and> i < length (split_slash (Name d))}
   = insert [] {p. \<exists>d \<in> set ds. prefix (p @ ''/'') (Name d)}" (is "?L = ?R")
proof
  show "?L \<subseteq> ?R"
  proof
    fix p assume "p \<in> ?L"
    then consider "p = []" | d i where "d \<in> set ds" "i < length (split_slash (Name d))" "p = chain d i"
      by blast
    then show "p \<in> ?R"
    proof cases
      case 1
      then show ?thesis by simp
    next
      case 2
      show ?thesis
      proof (cases "i = 0")
        case True
        with 2 show ?thesis by simp
      next
        case False
        with 2 have "prefix (p @ ''/'') (Name d)"
          unfolding boundary_prefix_iff chain_def by blast
        with 2 show ?thesis by blast
      qed
    qed
  qed
  show "?R \<subseteq> ?L"
  proof
    fix p assume "p \<in> ?R"
    then consider "p = []" | d where "d \<in> set ds" "prefix (p @ ''/'') (Name d)"
      by blast
    then show "p \<in> ?L"
    proof cases
      case 1
      then show ?thesis by simp
    next
      case 2
      from 2(2) obtain i where "i < length (split_slash (Name d))" "p = chain d i"
        unfolding boundary_prefix_iff chain_def by blast
      with 2 show ?thesis by blast
    qed
  qed
qed

lemma tree_dom:
  "dom (fst (buildFolderTree ds)) = insert [] {p. \<exists>d \<in> set ds. prefix (p @ ''/'') (Name d)}"
  unfolding buildFolderTree_fold fold_add_to_tree_dom
  using chains_are_boundary_prefixes [of ds] by simp

lemma tree_files:
  assumes "fst (buildFolderTree ds) p = Some node"
  shows "files node = filter (\<lambda>d. parentPath d = p) ds"
proof -
  have "files_at (fst (buildFolderTree ds)) p = filter (\<lambda>d. parentPath d = p) ds"
    unfolding buildFolderTree_fold fold_add_to_tree_files
    by (simp add: files_at_def empty_node_def)
  with assms show ?thesis by (simp add: files_at_def)
qed

lemma tree_folders:
  assumes "fst (buildFolderTree ds) p = Some node"
  shows "set (folders node) = {split_slash (Name d) ! i | d i.
        d \<in> set ds \<and> Suc i < length (split_slash (Name d)) \<and> p = chain d i}"
proof -
  have "folders_at (fst (buildFolderTree ds)) p = {split_slash (Name d) ! i | d i.
        d \<in> set ds \<and> Suc i < length (split_slash (Name d)) \<and> p = chain d i}"
    unfolding buildFolderTree_fold fold_add_to_tree_folders
    by (simp add: folders_at_def empty_node_def)
  with assms show ?thesis by (simp add: folders_at_def)
qed

lemma tree_parent:
  assumes "d \<in> set ds"
  shows "fst (buildFolderTree ds) (parentPath d) \<noteq> None"
proof -
  have "length (split_slash (Name d)) - 1 < length (split_slash (Name d))" by simp
  with assms have "parentPath d \<in> dom (fst (buildFolderTree ds))"
    unfolding buildFolderTree_fold fold_add_to_tree_dom chain_parent [symmetric] by blast
  then show ?thesis by blast
qed

lemma parentPath_no_slash: "CHR ''/'' \<notin> set (Name d) \<Longrightarrow> parentPath d = []"
  by (simp add: parentPath_def split_no_slash)

lemma parentPath_slash:
  assumes "CHR ''/'' \<in> set (Name d)"
  shows "\<exists>f. Name d = parentPath d @ ''/'' @ f \<and> CHR ''/'' \<notin> set f"
proof -
  let ?parts = "split_slash (Name d)"
  have ne: "?parts \<noteq> []" by simp
  have "length ?parts \<noteq> 1"
  proof
    assume "length ?parts = 1"
    then obtain w where w: "?parts = [w]" by (cases ?parts) auto
    then have "join_slash ?parts = w" by simp
    then have "Name d = w" by simp
    moreover from w split_slash_no_slash [of "Name d"] have "CHR ''/'' \<notin> set w" by simp
    ultimately show False using assms by simp
  qed
  with ne have b: "butlast ?parts \<noteq> []" by (cases ?parts) auto
  have "join_slash (butlast ?parts @ [last ?parts]) = join_slash (butlast ?parts) @ CHR ''/'' # join_slash [last ?parts]"
    using b by (intro join_slash_append) simp_all
  then have "Name d = join_slash (butlast ?parts) @ ''/'' @ last ?parts"
    using ne by simp
  moreover have "CHR ''/'' \<notin> set (last ?parts)"
    using split_slash_no_slash [of "Name d"] ne last_in_set by blast
  moreover have "parentPath d = join_slash (butlast ?parts)"
    by (simp add: parentPath_def Let_def butlast_conv_take)
  ultimately show ?thesis by metis
qed

text \<open>
  C1. For every record list, the tree that \<open>buildFolderTree\<close> leaves has the root node,
  at the empty key; its keys are the root and exactly the paths \<open>p\<close> such that \<open>p/\<close> is
  a prefix of the name of a record, one node for each, since the tree is a map; the files of
  the node at \<open>p\<close> are the records whose immediate parent is \<open>p\<close>, in the order of the
  list, so a record is in the files of the node of its immediate parent, which exists, and
  of no other node. The immediate parent of a name without \<open>/\<close> is the root, and that of
  any other name is the name without its last \<open>/\<close> and what follows it.
\<close>

theorem folder_tree_invariant:
  "fst (buildFolderTree ds) [] \<noteq> None
   \<and> dom (fst (buildFolderTree ds)) = insert [] {p. \<exists>d \<in> set ds. prefix (p @ ''/'') (Name d)}
   \<and> (\<forall>p node. fst (buildFolderTree ds) p = Some node \<longrightarrow>
         files node = filter (\<lambda>d. parentPath d = p) ds)
   \<and> (\<forall>d \<in> set ds. fst (buildFolderTree ds) (parentPath d) \<noteq> None)
   \<and> (CHR ''/'' \<notin> set (Name d) \<longrightarrow> parentPath d = [])
   \<and> (CHR ''/'' \<in> set (Name d) \<longrightarrow> (\<exists>f. Name d = parentPath d @ ''/'' @ f \<and> CHR ''/'' \<notin> set f))"
proof -
  have "[] \<in> dom (fst (buildFolderTree ds))" by (simp add: tree_dom)
  then have "fst (buildFolderTree ds) [] \<noteq> None" by blast
  then show ?thesis
    using tree_dom [of ds] tree_files [of ds] tree_parent [of _ ds] parentPath_no_slash [of d]
      parentPath_slash [of d]
    by blast
qed

theorem folder_tree_invariant_witness:
  "fst (buildFolderTree [blob ''a/b/x.pdf'' 1]) ''a/b'' = Some \<lparr>folders = [], files = [blob ''a/b/x.pdf'' 1]\<rparr>
   \<and> [blob ''a/b/x.pdf'' 1] = filter (\<lambda>d. parentPath d = ''a/b'') [blob ''a/b/x.pdf'' 1]
   \<and> blob ''a/b/x.pdf'' 1 \<in> set [blob ''a/b/x.pdf'' 1]
   \<and> fst (buildFolderTree [blob ''a/b/x.pdf'' 1]) (parentPath (blob ''a/b/x.pdf'' 1)) \<noteq> None
   \<and> CHR ''/'' \<in> set (Name (blob ''a/b/x.pdf'' 1))
   \<and> (\<exists>f. Name (blob ''a/b/x.pdf'' 1) = parentPath (blob ''a/b/x.pdf'' 1) @ ''/'' @ f \<and> CHR ''/'' \<notin> set f)
   \<and> CHR ''/'' \<notin> set (Name (blob ''x.pdf'' 1))
   \<and> parentPath (blob ''x.pdf'' 1) = []"
proof -
  define d where "d = blob ''a/b/x.pdf'' 1"
  define e where "e = blob ''x.pdf'' 1"
  have n: "fst (buildFolderTree [d]) ''a/b'' = Some \<lparr>folders = [], files = [d]\<rparr>"
    unfolding d_def by (simp add: model_defs)
  have s: "CHR ''/'' \<in> set (Name d)" "CHR ''/'' \<notin> set (Name e)"
    by (simp_all add: d_def e_def blob_def)
  have m: "d \<in> set [d]" by simp
  note w = folder_tree_invariant [of "[d]" d]
  note w3 = w [THEN conjunct2, THEN conjunct2, THEN conjunct1, rule_format, OF n]
  note w4 = w [THEN conjunct2, THEN conjunct2, THEN conjunct2, THEN conjunct1, THEN bspec, OF m]
  note w6 = w [THEN conjunct2, THEN conjunct2, THEN conjunct2, THEN conjunct2, THEN conjunct2,
               THEN mp, OF s(1)]
  note v = folder_tree_invariant [of "[]" e]
  note v5 = v [THEN conjunct2, THEN conjunct2, THEN conjunct2, THEN conjunct2, THEN conjunct1,
               THEN mp, OF s(2)]
  from w3 have f: "[d] = filter (\<lambda>d. parentPath d = ''a/b'') [d]"
    by (simp only: folder_node.simps)
  show ?thesis
    using n f m w4 s(1) w6 s(2) v5 unfolding d_def e_def by (intro conjI)
qed

section \<open>Folder pruning: proofs\<close>

lemma some_matching_eligible:
  assumes "cache_ok c"
  shows "\<exists>c1. some_matching A fs c = (list_ex (eligible A) fs, c1) \<and> cache_ok c1"
  using assms
proof (induction fs arbitrary: c)
  case Nil
  then show ?case by simp
next
  case (Cons d ds)
  obtain ti c1 where g: "getFileTypeInfo c d = (ti, c1)" by (cases "getFileTypeInfo c d")
  with getFileTypeInfo_classify [OF Cons.prems, of d]
  have ti: "ti = classify (Url d)" and ok1: "cache_ok c1" by simp_all
  show ?case
  proof (cases "Length d \<le> 0")
    case True
    then have e: "\<not> eligible A d" by (simp add: eligible_def)
    from Cons.IH [OF Cons.prems] True show ?thesis by (simp add: e)
  next
    case pos: False
    show ?thesis
    proof (cases "A = {}")
      case True
      with pos have e: "eligible A d" by (simp add: eligible_def)
      have "some_matching A (d # ds) c = (True, c)" using pos True by simp
      with e Cons.prems show ?thesis by simp
    next
      case False
      show ?thesis
      proof (cases "set_has A (name ti)")
        case True
        with pos ti have e: "eligible A d" by (simp add: eligible_def)
        from pos False g True ok1 show ?thesis by (simp add: e)
      next
        case nh: False
        with False ti have e: "\<not> eligible A d" by (simp add: eligible_def)
        from Cons.IH [OF ok1] obtain c2 where
          "some_matching A ds c1 = (list_ex (eligible A) ds, c2)" "cache_ok c2" by blast
        with pos False g nh show ?thesis by (simp add: e)
      qed
    qed
  qed
qed

lemma any_subfolder_value:
  assumes "\<And>f c. f \<in> set fs \<Longrightarrow> cache_ok c \<Longrightarrow> \<exists>c1. g f c = Some (B f, c1) \<and> cache_ok c1"
    and "cache_ok c"
  shows "\<exists>c1. any_subfolder g fs c = Some (\<exists>f \<in> set fs. B f, c1) \<and> cache_ok c1"
  using assms
proof (induction fs arbitrary: c)
  case Nil
  then show ?case by simp
next
  case (Cons x xs)
  from Cons.prems(1) [of x c] Cons.prems(2) obtain c1 where
    x: "g x c = Some (B x, c1)" "cache_ok c1" by auto
  show ?case
  proof (cases "B x")
    case True
    with x show ?thesis by simp
  next
    case False
    have "\<exists>c2. any_subfolder g xs c1 = Some (\<exists>f \<in> set xs. B f, c2) \<and> cache_ok c2"
      by (rule Cons.IH) (use Cons.prems(1) x(2) in auto)
    with x False show ?thesis by simp
  qed
qed

lemma filter_folders_value:
  assumes "\<And>f c. f \<in> set fs \<Longrightarrow> cache_ok c \<Longrightarrow> \<exists>c1. g f c = Some (B f, c1) \<and> cache_ok c1"
    and "cache_ok c"
  shows "\<exists>c1. filter_folders g fs c = Some (filter B fs, c1) \<and> cache_ok c1"
  using assms
proof (induction fs arbitrary: c)
  case Nil
  then show ?case by simp
next
  case (Cons x xs)
  from Cons.prems(1) [of x c] Cons.prems(2) obtain c1 where
    x: "g x c = Some (B x, c1)" "cache_ok c1" by auto
  have "\<exists>c2. filter_folders g xs c1 = Some (filter B xs, c2) \<and> cache_ok c2"
    by (rule Cons.IH) (use Cons.prems(1) x(2) in auto)
  with x show ?case by auto
qed

lemma filterDownloads_browse:
  assumes "cache_ok c"
  shows "\<exists>c1. filterDownloads h ds \<lparr>searchTerm = [], fileTypes = A, excludeZeroByte = True\<rparr> c
               = Inr (filter (eligible A) ds, c1) \<and> cache_ok c1"
  using assms
proof (induction ds arbitrary: c)
  case Nil
  then show ?case by simp
next
  case (Cons d ds)
  let ?o = "\<lparr>searchTerm = [], fileTypes = A, excludeZeroByte = True\<rparr>"
  obtain ti c1 where g: "getFileTypeInfo c d = (ti, c1)" by (cases "getFileTypeInfo c d")
  with getFileTypeInfo_classify [OF Cons.prems, of d]
  have ti: "ti = classify (Url d)" and ok1: "cache_ok c1" by simp_all
  have "\<exists>c2. filter_keep h ?o d c = Inr (eligible A d, c2) \<and> cache_ok c2"
    using g ti ok1 Cons.prems by (auto simp: filter_keep_def eligible_def)
  then obtain c2 where k: "filter_keep h ?o d c = Inr (eligible A d, c2)" "cache_ok c2" by blast
  from Cons.IH [OF k(2)] obtain c3 where
    "filterDownloads h ds ?o c2 = Inr (filter (eligible A) ds, c3)" "cache_ok c3" by blast
  with k show ?case by auto
qed


subsection \<open>Paths of well-formed names\<close>

lemma first_part_nonempty:
  assumes "\<not> prefix ''/'' s" and "1 < length (split_slash s)"
  shows "split_slash s ! 0 \<noteq> []"
proof (cases s)
  case Nil
  with assms(2) show ?thesis by simp
next
  case (Cons c cs)
  with assms(1) have "c \<noteq> CHR ''/''" by auto
  with Cons show ?thesis by (auto split: list.splits)
qed

lemma join_slash_nonempty: "w \<noteq> [] \<Longrightarrow> join_slash (w # ws) \<noteq> []"
  by (cases ws) simp_all

lemma chain_nonempty:
  assumes "\<not> prefix ''/'' (Name d)" and "0 < i" and "i < length (split_slash (Name d))"
  shows "chain d i \<noteq> []"
proof -
  let ?parts = "split_slash (Name d)"
  from assms(2,3) have "1 < length ?parts" by simp
  with assms(1) have f: "?parts ! 0 \<noteq> []" by (rule first_part_nonempty)
  from assms(2,3) obtain j where j: "i = Suc j" by (cases i) auto
  have "take i ?parts = ?parts ! 0 # take j (tl ?parts)"
    using assms(3) unfolding j by (cases ?parts) simp_all
  with f show ?thesis by (simp add: chain_def join_slash_nonempty)
qed

lemma chain_Suc:
  assumes "\<not> prefix ''/'' (Name d)" and "Suc i < length (split_slash (Name d))"
  shows "sub_path (chain d i) (split_slash (Name d) ! i) = chain d (Suc i)"
proof -
  let ?parts = "split_slash (Name d)"
  from assms(2) have t: "take (Suc i) ?parts = take i ?parts @ [?parts ! i]"
    by (simp add: take_Suc_conv_app_nth)
  show ?thesis
  proof (cases "i = 0")
    case True
    with t have "take (Suc 0) ?parts = [?parts ! 0]" by simp
    with True show ?thesis by (simp add: sub_path_def chain_def)
  next
    case False
    with assms have ne: "chain d i \<noteq> []" by (intro chain_nonempty) simp_all
    from False assms(2) have "take i ?parts \<noteq> []" by auto
    then have "join_slash (take i ?parts @ [?parts ! i])
        = join_slash (take i ?parts) @ CHR ''/'' # join_slash [?parts ! i]"
      by (rule join_slash_append) simp
    with ne show ?thesis by (simp add: sub_path_def chain_def t)
  qed
qed

lemma chain_longer:
  assumes "\<not> prefix ''/'' (Name d)" and "Suc i < length (split_slash (Name d))"
  shows "length (chain d i) < length (chain d (Suc i))"
proof (cases "i = 0")
  case True
  from assms have "chain d (Suc 0) \<noteq> []" unfolding True by (intro chain_nonempty) simp_all
  with True show ?thesis by simp
next
  case False
  with assms have "chain d i \<noteq> []" by (intro chain_nonempty) simp_all
  then have "sub_path (chain d i) (split_slash (Name d) ! i)
      = chain d i @ ''/'' @ split_slash (Name d) ! i"
    by (simp add: sub_path_def)
  then show ?thesis unfolding chain_Suc [OF assms] by simp
qed

lemma chain_length_le:
  assumes "i < length (split_slash (Name d))"
  shows "length (chain d i) \<le> length (Name d)"
proof (cases "i = 0")
  case True
  then show ?thesis by simp
next
  case False
  with assms have "prefix (chain d i @ ''/'') (Name d)"
    unfolding boundary_prefix_iff chain_def by blast
  then have "length (chain d i @ ''/'') \<le> length (Name d)" by (rule prefix_length_le)
  then show ?thesis by simp
qed

lemma split_chain:
  assumes "0 < i" and "i < length (split_slash (Name d))"
  shows "split_slash (chain d i) = take i (split_slash (Name d))"
  unfolding chain_def
proof (rule split_join_slash)
  show "take i (split_slash (Name d)) \<noteq> []" using assms by auto
  show "\<forall>w \<in> set (take i (split_slash (Name d))). CHR ''/'' \<notin> set w"
    using split_slash_no_slash [of "Name d"] by (meson in_set_takeD)
qed

lemma chain_inj:
  assumes "\<not> prefix ''/'' (Name e)"
    and "j < length (split_slash (Name d))" and "Suc i < length (split_slash (Name e))"
    and "chain d j = chain e (Suc i)"
  shows "j = Suc i \<and> chain d i = chain e i"
proof -
  from assms(1,3) have ne: "chain e (Suc i) \<noteq> []" by (intro chain_nonempty) simp_all
  with assms(4) have "j \<noteq> 0" by (cases j) auto
  then have "split_slash (chain d j) = take j (split_slash (Name d))"
    using assms(2) by (intro split_chain) simp_all
  moreover have "split_slash (chain e (Suc i)) = take (Suc i) (split_slash (Name e))"
    using assms(3) by (intro split_chain) simp_all
  ultimately have eq: "take j (split_slash (Name d)) = take (Suc i) (split_slash (Name e))"
    using assms(4) by simp
  then have "length (take j (split_slash (Name d))) = length (take (Suc i) (split_slash (Name e)))"
    by simp
  with assms(2,3) have j: "j = Suc i" by simp
  from eq have "take i (take j (split_slash (Name d))) = take i (take (Suc i) (split_slash (Name e)))"
    by simp
  then have "take i (split_slash (Name d)) = take i (split_slash (Name e))"
    unfolding j by (simp add: min_def)
  with j show ?thesis by (simp add: chain_def)
qed


subsection \<open>checkNode on the tree of a record list\<close>

lemma lies_under_dom:
  assumes "d \<in> set ds" and "lies_under q d"
  shows "q \<in> dom (fst (buildFolderTree ds))"
  using assms unfolding lies_under_def buildFolderTree_fold fold_add_to_tree_dom by blast

lemma dom_length:
  assumes "q \<in> dom (fst (buildFolderTree ds))"
  shows "length q < path_bound ds"
proof -
  from assms consider "q = []"
    | d i where "d \<in> set ds" "i < length (split_slash (Name d))" "q = chain d i"
    unfolding buildFolderTree_fold fold_add_to_tree_dom by auto
  then show ?thesis
  proof cases
    case 1
    then show ?thesis by (simp add: path_bound_def)
  next
    case 2
    from 2(2,3) have "length q \<le> length (Name d)" by (simp add: chain_length_le)
    also from 2(1) have "length (Name d) \<le> sum_list (map (length \<circ> Name) ds)"
      using member_le_sum_list [of "length (Name d)" "map (length \<circ> Name) ds"] by force
    finally show ?thesis by (simp add: path_bound_def)
  qed
qed

lemma lies_under_split:
  assumes wf: "\<forall>d \<in> set ds. \<not> prefix ''/'' (Name d)"
    and node: "fst (buildFolderTree ds) q = Some node"
  shows "(\<exists>d \<in> set ds. P d \<and> lies_under q d)
     \<longleftrightarrow> (\<exists>d \<in> set ds. parentPath d = q \<and> P d)
        \<or> (\<exists>f \<in> set (folders node). \<exists>d \<in> set ds. P d \<and> lies_under (sub_path q f) d)"
    (is "?L \<longleftrightarrow> ?A \<or> ?B")
proof
  assume ?L
  then obtain d i where d: "d \<in> set ds" "P d" "i < length (split_slash (Name d))" "chain d i = q"
    unfolding lies_under_def by blast
  show "?A \<or> ?B"
  proof (cases "Suc i < length (split_slash (Name d))")
    case True
    let ?f = "split_slash (Name d) ! i"
    from d True have "?f \<in> set (folders node)"
      unfolding tree_folders [OF node] by blast
    moreover from wf d(1) True have "sub_path q ?f = chain d (Suc i)"
      unfolding d(4) [symmetric] by (intro chain_Suc) simp_all
    then have "lies_under (sub_path q ?f) d"
      unfolding lies_under_def using True by auto
    ultimately show ?thesis using d(1,2) by blast
  next
    case False
    with d(3) have "i = length (split_slash (Name d)) - 1" by simp
    with d(4) chain_parent [of d] have "parentPath d = q" by simp
    with d(1,2) show ?thesis by blast
  qed
next
  assume "?A \<or> ?B"
  then show ?L
  proof
    assume ?A
    then obtain d where d: "d \<in> set ds" "parentPath d = q" "P d" by blast
    have "length (split_slash (Name d)) - 1 < length (split_slash (Name d))" by simp
    with d(2) have "lies_under q d"
      unfolding lies_under_def chain_parent [symmetric] by blast
    with d show ?L by blast
  next
    assume ?B
    then obtain f d j where f: "f \<in> set (folders node)" and d: "d \<in> set ds" "P d"
      and j: "j < length (split_slash (Name d))" "chain d j = sub_path q f"
      unfolding lies_under_def by blast
    from f obtain e i where e: "e \<in> set ds" "Suc i < length (split_slash (Name e))"
      "q = chain e i" "f = split_slash (Name e) ! i"
      unfolding tree_folders [OF node] by blast
    from wf e(1) have we: "\<not> prefix ''/'' (Name e)" by blast
    from we e(2) have "sub_path q f = chain e (Suc i)"
      unfolding e(3,4) by (rule chain_Suc)
    with j(2) have "chain d j = chain e (Suc i)" by simp
    from chain_inj [OF we j(1) e(2) this] have ji: "j = Suc i" and ci: "chain d i = q"
      unfolding e(3) by simp_all
    from j(1) ji have "i < length (split_slash (Name d))" by simp
    with ci have "lies_under q d" unfolding lies_under_def by blast
    with d show ?L by blast
  qed
qed

lemma sub_path_longer:
  assumes wf: "\<forall>d \<in> set ds. \<not> prefix ''/'' (Name d)"
    and node: "fst (buildFolderTree ds) q = Some node"
    and f: "f \<in> set (folders node)"
  shows "length q < length (sub_path q f)"
proof -
  from f obtain e i where e: "e \<in> set ds" "Suc i < length (split_slash (Name e))"
      "q = chain e i" "f = split_slash (Name e) ! i"
    unfolding tree_folders [OF node] by blast
  from wf e(1) have we: "\<not> prefix ''/'' (Name e)" by blast
  from we e(2) have "sub_path q f = chain e (Suc i)"
    unfolding e(3,4) by (rule chain_Suc)
  with chain_longer [OF we e(2)] show ?thesis by (simp add: e(3))
qed

lemma checkNode_built:
  assumes wf: "\<forall>d \<in> set ds. \<not> prefix ''/'' (Name d)"
  shows "path_bound ds \<le> length q + n \<Longrightarrow> cache_ok c \<Longrightarrow>
     \<exists>c1. checkNode (fst (buildFolderTree ds)) A q c
             = Some (\<exists>d \<in> set ds. eligible A d \<and> lies_under q d, c1) \<and> cache_ok c1"
proof (induction n arbitrary: q c)
  case 0
  then have "q \<notin> dom (fst (buildFolderTree ds))"
    using dom_length [of q ds] by auto
  then have none: "fst (buildFolderTree ds) q = None" by blast
  then have "\<not> (\<exists>d \<in> set ds. eligible A d \<and> lies_under q d)"
    using lies_under_dom [of _ ds q] by blast
  with none 0 show ?case by (simp add: checkNode.simps)
next
  case (Suc n)
  let ?T = "fst (buildFolderTree ds)"
  show ?case
  proof (cases "?T q")
    case None
    then have "\<not> (\<exists>d \<in> set ds. eligible A d \<and> lies_under q d)"
      using lies_under_dom [of _ ds q] by blast
    with None Suc.prems show ?thesis by (simp add: checkNode.simps)
  next
    case (Some node)
    from some_matching_eligible [OF Suc.prems(2)] obtain c1 where
      sm: "some_matching A (files node) c = (list_ex (eligible A) (files node), c1)"
      and ok1: "cache_ok c1" by blast
    have direct: "list_ex (eligible A) (files node) \<longleftrightarrow> (\<exists>d \<in> set ds. parentPath d = q \<and> eligible A d)"
      unfolding tree_files [OF Some] by (auto simp: list_ex_iff)
    note split = lies_under_split [OF wf Some, of "eligible A"]
    show ?thesis
    proof (cases "list_ex (eligible A) (files node)")
      case True
      with direct split have "\<exists>d \<in> set ds. eligible A d \<and> lies_under q d" by blast
      with Some sm True ok1 show ?thesis by (simp add: checkNode.simps)
    next
      case False
      let ?B = "\<lambda>f. \<exists>d \<in> set ds. eligible A d \<and> lies_under (sub_path q f) d"
      let ?g = "\<lambda>subfolder c2. checkNode ?T A (if q \<noteq> [] then q @ ''/'' @ subfolder else subfolder) c2"
      have "\<exists>c2. any_subfolder ?g (folders node) c1 = Some (\<exists>f \<in> set (folders node). ?B f, c2) \<and> cache_ok c2"
      proof (rule any_subfolder_value [where B = ?B])
        fix f c' assume f: "f \<in> set (folders node)" and ok: "cache_ok c'"
        from sub_path_longer [OF wf Some f] Suc.prems(1)
        have "path_bound ds \<le> length (sub_path q f) + n" by simp
        from Suc.IH [OF this ok]
        show "\<exists>c1. ?g f c' = Some (?B f, c1) \<and> cache_ok c1"
          by (simp add: sub_path_def)
      qed (rule ok1)
      then obtain c2 where
        any: "any_subfolder ?g (folders node) c1 = Some (\<exists>f \<in> set (folders node). ?B f, c2)"
        and ok2: "cache_ok c2" by blast
      from False direct split
      have "(\<exists>f \<in> set (folders node). ?B f) \<longleftrightarrow> (\<exists>d \<in> set ds. eligible A d \<and> lies_under q d)"
        by blast
      with any have "any_subfolder ?g (folders node) c1
          = Some (\<exists>d \<in> set ds. eligible A d \<and> lies_under q d, c2)" by simp
      with Some sm False ok2 show ?thesis
        by (subst checkNode.simps) simp
    qed
  qed
qed


lemma lies_under_prefix:
  assumes "q \<noteq> []"
  shows "lies_under q d \<longleftrightarrow> prefix (q @ ''/'') (Name d)"
proof
  assume "lies_under q d"
  then obtain i where i: "i < length (split_slash (Name d))" "chain d i = q"
    unfolding lies_under_def by blast
  with assms have "0 < i" by (cases i) auto
  with i show "prefix (q @ ''/'') (Name d)"
    unfolding boundary_prefix_iff chain_def by blast
next
  assume "prefix (q @ ''/'') (Name d)"
  then show "lies_under q d"
    unfolding boundary_prefix_iff lies_under_def chain_def by blast
qed

lemma sub_path_nonempty:
  assumes wf: "\<forall>d \<in> set ds. \<not> prefix ''/'' (Name d)"
    and node: "fst (buildFolderTree ds) q = Some node"
    and f: "f \<in> set (folders node)"
  shows "sub_path q f \<noteq> []"
  using sub_path_longer [OF assms] by auto

lemma folderHasMatchingFiles_built:
  assumes wf: "\<forall>d \<in> set ds. \<not> prefix ''/'' (Name d)"
    and node: "fst (buildFolderTree ds) q = Some node"
    and f: "f \<in> set (folders node)"
    and ok: "cache_ok c"
  shows "\<exists>c1. folderHasMatchingFiles (fst (buildFolderTree ds)) A q f c
           = Some (\<exists>d \<in> set ds. eligible A d \<and> prefix (sub_path q f @ ''/'') (Name d), c1)
         \<and> cache_ok c1"
proof -
  have "path_bound ds \<le> length (sub_path q f) + path_bound ds" by simp
  from checkNode_built [OF wf this ok, of A]
  have "\<exists>c1. checkNode (fst (buildFolderTree ds)) A (sub_path q f) c
             = Some (\<exists>d \<in> set ds. eligible A d \<and> lies_under (sub_path q f) d, c1) \<and> cache_ok c1" .
  then show ?thesis
    unfolding lies_under_prefix [OF sub_path_nonempty [OF wf node f]]
    by (simp add: folderHasMatchingFiles_def sub_path_def)
qed

lemma displayDownloads_browse_built:
  assumes bt: "folderTree st = fst (buildFolderTree (allDownloads st))"
    and ok: "cache_ok (fileTypeCache st)"
    and wf: "\<forall>d \<in> set (allDownloads st). \<not> prefix ''/'' (Name d)"
    and browse: "searchInput st = []"
    and node: "folderTree st (join_slash (currentPath st)) = Some node"
  shows "\<exists>r c. displayDownloads h st = Inr (Listing r, c)
     \<and> allItems r =
         map FolderItem (sort (filter
            (\<lambda>f. \<exists>d \<in> set (allDownloads st). eligible (activeFileTypes st) d
                   \<and> prefix (sub_path (join_slash (currentPath st)) f @ ''/'') (Name d))
            (folders node)))
         @ map FileItem (sortFiles h (sortBy st) (filter (eligible (activeFileTypes st)) (files node)))"
proof -
  let ?A = "activeFileTypes st" and ?ds = "allDownloads st" and ?q = "join_slash (currentPath st)"
  let ?B = "\<lambda>f. \<exists>d \<in> set ?ds. eligible ?A d \<and> prefix (sub_path ?q f @ ''/'') (Name d)"
  from filterDownloads_browse [OF ok] obtain c1 where
    fd: "filterDownloads h (files node) \<lparr>searchTerm = [], fileTypes = ?A, excludeZeroByte = True\<rparr>
           (fileTypeCache st) = Inr (filter (eligible ?A) (files node), c1)"
    and ok1: "cache_ok c1" by blast
  from node have node': "fst (buildFolderTree ?ds) ?q = Some node" by (simp add: bt)
  have "\<exists>c2. filter_folders (folderHasMatchingFiles (folderTree st) ?A ?q) (folders node) c1
          = Some (filter ?B (folders node), c2) \<and> cache_ok c2"
  proof (rule filter_folders_value [where B = ?B])
    fix f c assume "f \<in> set (folders node)" "cache_ok c"
    from folderHasMatchingFiles_built [OF wf node' this]
    show "\<exists>c1. folderHasMatchingFiles (folderTree st) ?A ?q f c = Some (?B f, c1) \<and> cache_ok c1"
      by (simp add: bt)
  qed (rule ok1)
  then obtain c2 where
    ff: "filter_folders (folderHasMatchingFiles (folderTree st) ?A ?q) (folders node) c1
          = Some (filter ?B (folders node), c2)" by blast
  have "displayDownloads h st =
      Inr (Listing (render_items (map FolderItem (sort (filter ?B (folders node)))
              @ map FileItem (sortFiles h (sortBy st) (filter (eligible ?A) (files node))))
            (currentPage st)), c2)"
    using browse node fd ff by (simp add: displayDownloads_def toLowerCase_def Let_def)
  then show ?thesis by (simp add: render_items_def)
qed

lemma pruning_example_listing:
  "displayDownloads h ((loaded pruning_example)\<lparr>activeFileTypes := {''ZIP''}, currentPath := [''a'']\<rparr>)
   = Inr (Listing \<lparr>allItems = [FolderItem ''c''], totalItems = 1, pages = 1, shown = [FolderItem ''c'']\<rparr>,
          fileTypeCache (loaded pruning_example))"
  by (simp add: pruning_example_def model_defs totalPages_div)

lemma zero_byte_pruning_listing:
  "displayDownloads h ((loaded [blob ''a/b/x.pdf'' 0, blob ''a/c/y.zip'' 1])
      \<lparr>activeFileTypes := {}, currentPath := [''a'']\<rparr>)
   = Inr (Listing \<lparr>allItems = [FolderItem ''c''], totalItems = 1, pages = 1, shown = [FolderItem ''c'']\<rparr>,
          fileTypeCache (loaded [blob ''a/b/x.pdf'' 0, blob ''a/c/y.zip'' 1]))"
  by (simp add: model_defs totalPages_div)


text \<open>
  C2. In browse mode, on the tree built from the records, none of whose names starts with
  \<open>/\<close>: \<open>displayDownloads\<close> returns a listing, and a folder name \<open>f\<close> is listed exactly
  when \<open>f\<close> is a child folder of the node at the current path and some record with positive
  length that passes the type filter (every record, when no type is selected) has a name
  that starts with the path of \<open>f\<close> followed by \<open>/\<close>. For the records \<open>a/b/x.pdf\<close> and
  \<open>a/c/y.zip\<close> with the type filter \<open>ZIP\<close>, browsing \<open>a\<close> lists the folder \<open>c\<close> only; with
  no type filter and \<open>a/b/x.pdf\<close> of length 0, it lists the folder \<open>c\<close> only as well.
\<close>

theorem folder_pruning:
  "(folderTree st = fst (buildFolderTree (allDownloads st))
      \<and> cache_ok (fileTypeCache st)
      \<and> (\<forall>d \<in> set (allDownloads st). \<not> prefix ''/'' (Name d))
      \<and> searchInput st = []
      \<and> folderTree st (join_slash (currentPath st)) = Some node \<longrightarrow>
    (\<exists>r c. displayDownloads h st = Inr (Listing r, c)
       \<and> (\<forall>f. FolderItem f \<in> set (allItems r) \<longleftrightarrow>
             f \<in> set (folders node)
             \<and> (\<exists>d \<in> set (allDownloads st). eligible (activeFileTypes st) d
                   \<and> prefix (sub_path (join_slash (currentPath st)) f @ ''/'') (Name d)))))
   \<and> displayDownloads h ((loaded pruning_example)\<lparr>activeFileTypes := {''ZIP''}, currentPath := [''a'']\<rparr>)
       = Inr (Listing \<lparr>allItems = [FolderItem ''c''], totalItems = 1, pages = 1,
                       shown = [FolderItem ''c'']\<rparr>,
              fileTypeCache (loaded pruning_example))
   \<and> displayDownloads h ((loaded [blob ''a/b/x.pdf'' 0, blob ''a/c/y.zip'' 1])
          \<lparr>activeFileTypes := {}, currentPath := [''a'']\<rparr>)
       = Inr (Listing \<lparr>allItems = [FolderItem ''c''], totalItems = 1, pages = 1,
                       shown = [FolderItem ''c'']\<rparr>,
              fileTypeCache (loaded [blob ''a/b/x.pdf'' 0, blob ''a/c/y.zip'' 1]))"
proof -
  have "\<exists>r c. displayDownloads h st = Inr (Listing r, c)
       \<and> (\<forall>f. FolderItem f \<in> set (allItems r) \<longleftrightarrow>
             f \<in> set (folders node)
             \<and> (\<exists>d \<in> set (allDownloads st). eligible (activeFileTypes st) d
                   \<and> prefix (sub_path (join_slash (currentPath st)) f @ ''/'') (Name d)))"
    if a: "folderTree st = fst (buildFolderTree (allDownloads st))"
      "cache_ok (fileTypeCache st)"
      "\<forall>d \<in> set (allDownloads st). \<not> prefix ''/'' (Name d)"
      "searchInput st = []"
      "folderTree st (join_slash (currentPath st)) = Some node"
  proof -
    from displayDownloads_browse_built [OF a, of h] obtain r c where
      d: "displayDownloads h st = Inr (Listing r, c)"
      and i: "allItems r =
         map FolderItem (sort (filter
            (\<lambda>f. \<exists>d \<in> set (allDownloads st). eligible (activeFileTypes st) d
                   \<and> prefix (sub_path (join_slash (currentPath st)) f @ ''/'') (Name d))
            (folders node)))
         @ map FileItem (sortFiles h (sortBy st) (filter (eligible (activeFileTypes st)) (files node)))"
      by blast
    have "\<forall>f. FolderItem f \<in> set (allItems r) \<longleftrightarrow>
             f \<in> set (folders node)
             \<and> (\<exists>d \<in> set (allDownloads st). eligible (activeFileTypes st) d
                   \<and> prefix (sub_path (join_slash (currentPath st)) f @ ''/'') (Name d))"
      unfolding i by auto
    with d show ?thesis by blast
  qed
  then show ?thesis
    using pruning_example_listing [of h] zero_byte_pruning_listing [of h] by blast
qed

theorem folder_pruning_witness:
  "folderTree ((loaded pruning_example)\<lparr>activeFileTypes := {''ZIP''}, currentPath := [''a'']\<rparr>)
     = fst (buildFolderTree pruning_example)
   \<and> cache_ok (fileTypeCache (loaded pruning_example))
   \<and> \<not> prefix ''/'' (Name (blob ''a/b/x.pdf'' 1)) \<and> \<not> prefix ''/'' (Name (blob ''a/c/y.zip'' 1))
   \<and> fst (buildFolderTree pruning_example) ''a'' = Some \<lparr>folders = [''b'', ''c''], files = []\<rparr>
   \<and> (\<exists>d. d \<in> set pruning_example \<and> eligible {''ZIP''} d \<and> prefix (sub_path ''a'' ''c'' @ ''/'') (Name d))
   \<and> \<not> (\<exists>d. d \<in> set pruning_example \<and> eligible {''ZIP''} d \<and> prefix (sub_path ''a'' ''b'' @ ''/'') (Name d))"
proof -
  define S where "S = (loaded pruning_example)\<lparr>activeFileTypes := {''ZIP''}, currentPath := [''a'']\<rparr>"
  define N where "N = \<lparr>folders = [''b'', ''c''], files = ([] :: download list)\<rparr>"
  define R where "R = \<lparr>allItems = [FolderItem ''c''], totalItems = 1, pages = 1, shown = [FolderItem ''c'']\<rparr>"
  have t: "folderTree S = fst (buildFolderTree (allDownloads S))"
    by (simp add: S_def loaded_def split_beta)
  have t': "folderTree S = fst (buildFolderTree pruning_example)"
    by (simp add: S_def loaded_def split_beta)
  have "cache_ok (snd (buildFolderTree pruning_example))"
    unfolding buildFolderTree_def by (rule cache_ok_fold_add_download) (simp add: cache_ok_def)
  then have ok': "cache_ok (fileTypeCache (loaded pruning_example))"
    by (simp add: loaded_def split_beta)
  then have ok: "cache_ok (fileTypeCache S)"
    by (simp add: S_def)
  have w1: "\<not> prefix ''/'' (Name (blob ''a/b/x.pdf'' 1))" and w2: "\<not> prefix ''/'' (Name (blob ''a/c/y.zip'' 1))"
    by (simp_all add: blob_def)
  have ds: "allDownloads S = pruning_example"
    by (simp add: S_def loaded_def split_beta)
  from w1 w2 have wf: "\<forall>d \<in> set (allDownloads S). \<not> prefix ''/'' (Name d)"
    by (simp add: ds pruning_example_def)
  have si: "searchInput S = []"
    by (simp add: S_def loaded_def split_beta)
  have cp: "join_slash (currentPath S) = ''a''" and af: "activeFileTypes S = {''ZIP''}"
    by (simp_all add: S_def)
  have n': "fst (buildFolderTree pruning_example) ''a'' = Some N"
    unfolding N_def by (simp add: pruning_example_def model_defs)
  with t' cp have n: "folderTree S (join_slash (currentPath S)) = Some N"
    by simp
  from folder_pruning [of S N plain_host] t ok wf si n obtain r c where
    d: "displayDownloads plain_host S = Inr (Listing r, c)"
    and i: "\<forall>f. FolderItem f \<in> set (allItems r) \<longleftrightarrow>
             f \<in> set (folders N)
             \<and> (\<exists>d \<in> set (allDownloads S). eligible (activeFileTypes S) d
                   \<and> prefix (sub_path (join_slash (currentPath S)) f @ ''/'') (Name d))"
    by blast
  from folder_pruning [of S N plain_host]
  have "displayDownloads plain_host S = Inr (Listing R, fileTypeCache (loaded pruning_example))"
    unfolding S_def R_def by blast
  with d have "r = R" by simp
  then have r: "allItems r = [FolderItem ''c'']"
    by (simp add: R_def)
  from i [rule_format, of "''c''"] have
    c: "\<exists>d. d \<in> set pruning_example \<and> eligible {''ZIP''} d \<and> prefix (sub_path ''a'' ''c'' @ ''/'') (Name d)"
    unfolding r ds cp af by (auto simp: N_def)
  from i [rule_format, of "''b''"] have
    b: "\<not> (\<exists>d. d \<in> set pruning_example \<and> eligible {''ZIP''} d \<and> prefix (sub_path ''a'' ''b'' @ ''/'') (Name d))"
    unfolding r ds cp af by (auto simp: N_def)
  show ?thesis
    using t' [unfolded S_def] ok' w1 w2 n' [unfolded N_def] c b by (intro conjI)
qed

section \<open>Folders matching a pattern: proofs\<close>

text \<open>
  C9, at the record \<open>archive/2024-old/2024/notes.txt\<close> and the pattern \<open>2024\<close>: the only
  folder path that the pattern with its suffix \<open>(?:/|$)\<close> matches is
  \<open>archive/2024-old/2024\<close>; the pattern alone matches it first inside \<open>2024-old\<close>, and
  the path that is kept and returned, \<open>archive/2024\<close>, is not a folder path of the record
  list.
\<close>

theorem matchFolders_returns_no_folder:
  "getAllFolderPaths [blob ''archive/2024-old/2024/notes.txt'' 1]
     = [''archive'', ''archive/2024-old'', ''archive/2024-old/2024'']
   \<and> matchFolders h [blob ''archive/2024-old/2024/notes.txt'' 1] ''2024'' 10 ''desc''
     = Inr [''archive/2024'']
   \<and> ''archive/2024'' \<notin> set (getAllFolderPaths [blob ''archive/2024-old/2024/notes.txt'' 1])"
  by (simp add: matchFolders_def getAllFolderPaths_def add_folder_paths_def match_folder_def
      match_file_def model_defs)


end
